theory Spec2Isabelle
  imports Complex_Main "HOL-Library.Word"
begin

section \<open>JavaScript values\<close>

text \<open>
  The segmentation engine is the browser-side JavaScript of \<^verbatim>\<open>src/version2.py\<close>
  (the page template, lines 715 to 892). Its values are modelled as follows.

  \<^item> A string is its list of UTF-16 code units, each a natural number; \<open>length\<close>
    and \<open>take\<close> count code units, as \<^verbatim>\<open>length\<close> and \<^verbatim>\<open>slice\<close> do.
  \<^item> A number is a rational or \<open>NaN\<close>. Every binary64 value other than the
    infinities is a rational. The arithmetic of the parser, the synthesizer and the
    encoder is exact. The products and the difference of the segment extractor are
    rounded to binary64 (\<open>fl64\<close> below), because the sample indices depend on the
    rounding. Overflow to infinity is not modelled.
  \<^item> A property that may be absent (\<^verbatim>\<open>undefined\<close>) is an \<open>option\<close>.
\<close>

type_synonym jsstring = "nat list"

datatype jsnum = Num rat | NaN

definition js :: "string \<Rightarrow> jsstring" where
  "js s = map of_char s"

fun js_add :: "jsnum \<Rightarrow> jsnum \<Rightarrow> jsnum" where
  "js_add (Num a) (Num b) = Num (a + b)"
| "js_add _ _ = NaN"

fun js_mul :: "jsnum \<Rightarrow> jsnum \<Rightarrow> jsnum" where
  "js_mul (Num a) (Num b) = Num (a * b)"
| "js_mul _ _ = NaN"

text \<open>\<^verbatim>\<open>x / d\<close> for a non-zero constant divisor \<open>d\<close> (the only division the code makes).\<close>

fun js_div :: "jsnum \<Rightarrow> rat \<Rightarrow> jsnum" where
  "js_div (Num a) d = Num (a / d)"
| "js_div NaN d = NaN"

text \<open>An operand that is \<^verbatim>\<open>undefined\<close> converts to \<open>NaN\<close>.\<close>

fun to_number :: "jsnum option \<Rightarrow> jsnum" where
  "to_number (Some x) = x"
| "to_number None = NaN"

section \<open>Timed entries and the segment synthesizer\<close>

record timed_entry =
  seg_start :: jsnum
  seg_end :: "jsnum option"
  seg_text :: jsstring

text \<open>
  Lines 770 to 781 of \<^verbatim>\<open>parseTranscriptFile\<close>:
  \<^verbatim>\<open>
    let segments = [];
    if (timestamped.length && timestamped[0].end === undefined) {
        for (let i = 0; i < timestamped.length; i++) {
            const cur = {...timestamped[i]};
            cur.end = (i + 1 < timestamped.length) ? timestamped[i + 1].start : cur.start + 3.0;
            segments.push(cur);
        }
    } else { segments = timestamped; }
  \<close>
  The loop reads only entries \<open>i\<close> and \<open>i + 1\<close>, so it is a recursion on the list.
\<close>

fun synth_loop :: "timed_entry list \<Rightarrow> timed_entry list" where
  "synth_loop [] = []"
| "synth_loop [cur] = [cur\<lparr>seg_end := Some (js_add (seg_start cur) (Num 3))\<rparr>]"
| "synth_loop (cur # nxt # rest) =
     cur\<lparr>seg_end := Some (seg_start nxt)\<rparr> # synth_loop (nxt # rest)"

definition synthesize :: "timed_entry list \<Rightarrow> timed_entry list" where
  "synthesize timestamped =
     (case timestamped of
        [] \<Rightarrow> timestamped
      | e # _ \<Rightarrow> if seg_end e = None then synth_loop timestamped else timestamped)"

section \<open>Strings, character classes and the regular expressions of the parser\<close>

definition ch :: "char \<Rightarrow> nat" where
  "ch c = of_char c"

text \<open>
  \<^verbatim>\<open>\s\<close> and \<^verbatim>\<open>trim()\<close> use the same set: ECMAScript's WhiteSpace and
  LineTerminator code points.
\<close>

definition is_space :: "nat \<Rightarrow> bool" where
  "is_space c \<longleftrightarrow>
     c = 9 \<or> c = 10 \<or> c = 11 \<or> c = 12 \<or> c = 13 \<or> c = 32 \<or> c = 160 \<or> c = 5760 \<or>
     (8192 \<le> c \<and> c \<le> 8202) \<or> c = 8232 \<or> c = 8233 \<or> c = 8239 \<or> c = 8287 \<or>
     c = 12288 \<or> c = 65279"

definition is_digit :: "nat \<Rightarrow> bool" where
  "is_digit c \<longleftrightarrow> 48 \<le> c \<and> c \<le> 57"

text \<open>\<^verbatim>\<open>\w\<close> is \<^verbatim>\<open>[A-Za-z0-9_]\<close>.\<close>

definition is_word :: "nat \<Rightarrow> bool" where
  "is_word c \<longleftrightarrow> (65 \<le> c \<and> c \<le> 90) \<or> (97 \<le> c \<and> c \<le> 122) \<or> is_digit c \<or> c = 95"

text \<open>\<^verbatim>\<open>.\<close> (without the \<^verbatim>\<open>s\<close> flag) is any code unit but a line terminator.\<close>

definition is_dot :: "nat \<Rightarrow> bool" where
  "is_dot c \<longleftrightarrow> c \<noteq> 10 \<and> c \<noteq> 13 \<and> c \<noteq> 8232 \<and> c \<noteq> 8233"

definition trim :: "jsstring \<Rightarrow> jsstring" where
  "trim s = rev (dropWhile is_space (rev (dropWhile is_space s)))"

text \<open>
  \<^verbatim>\<open>text.split(/\r?\n/)\<close>: the string is cut at every \<^verbatim>\<open>\n\<close>, and a \<^verbatim>\<open>\r\<close>
  right before it belongs to the separator. \<open>cur\<close> is the line being collected.
\<close>

fun split_lines_from :: "jsstring \<Rightarrow> jsstring \<Rightarrow> jsstring list" where
  "split_lines_from cur [] = [cur]"
| "split_lines_from cur [c] = (if c = 10 then [cur, []] else [cur @ [c]])"
| "split_lines_from cur (c # d # cs) =
     (if c = 10 then cur # split_lines_from [] (d # cs)
      else if c = 13 \<and> d = 10 then cur # split_lines_from [] cs
      else split_lines_from (cur @ [c]) (d # cs))"

definition split_lines :: "jsstring \<Rightarrow> jsstring list" where
  "split_lines s = split_lines_from [] s"

text \<open>\<^verbatim>\<open>t.split(sep)\<close> for a one-character separator string.\<close>

fun split_at :: "nat \<Rightarrow> jsstring \<Rightarrow> jsstring \<Rightarrow> jsstring list" where
  "split_at sep cur [] = [cur]"
| "split_at sep cur (c # cs) =
     (if c = sep then cur # split_at sep [] cs else split_at sep (cur @ [c]) cs)"

definition split_on :: "nat \<Rightarrow> jsstring \<Rightarrow> jsstring list" where
  "split_on sep s = split_at sep [] s"

text \<open>
  Every regular expression of \<^verbatim>\<open>parseTranscriptFile\<close> is anchored at both ends
  (\<^verbatim>\<open>^...$\<close>) and is a sequence of greedily quantified one-character atoms, some of
  them inside one of up to three capturing groups. Such an expression is the list of its
  atoms: the capturing group (0 for none), the character class, and the least and greatest
  number of repetitions (\<open>None\<close> for unbounded).
\<close>

datatype cls = Digit | Space | AnyChar | Lit nat

fun cls_ok :: "cls \<Rightarrow> nat \<Rightarrow> bool" where
  "cls_ok Digit c = is_digit c"
| "cls_ok Space c = is_space c"
| "cls_ok AnyChar c = is_dot c"
| "cls_ok (Lit k) c = (c = k)"

datatype atom = Atom (a_grp: nat) (a_cls: cls) (a_lo: nat) (a_hi: "nat option")

fun below :: "nat option \<Rightarrow> nat \<Rightarrow> bool" where
  "below None n = True"
| "below (Some h) n = (n < h)"

text \<open>
  Backtracking as the ECMAScript matcher does it: a greedy quantifier first tries to take
  one more character and to match the rest of the pattern after that; only when that
  fails does it stop where it is and hand over to the rest of the pattern (\<open>k\<close>).
  \<open>acc\<close> is what the atom has taken so far.
\<close>

fun rep :: "(jsstring \<Rightarrow> jsstring \<Rightarrow> 'r option) \<Rightarrow> cls \<Rightarrow> nat \<Rightarrow> nat option \<Rightarrow>
    jsstring \<Rightarrow> jsstring \<Rightarrow> 'r option" where
  "rep k c lo hi acc [] = (if lo \<le> length acc then k acc [] else None)"
| "rep k c lo hi acc (x # xs) =
     (case (if below hi (length acc) \<and> cls_ok c x then rep k c lo hi (acc @ [x]) xs else None) of
        Some r \<Rightarrow> Some r
      | None \<Rightarrow> if lo \<le> length acc then k acc (x # xs) else None)"

text \<open>The result of a match is the piece of the line each atom has taken.\<close>

primrec match_atoms :: "atom list \<Rightarrow> jsstring \<Rightarrow> jsstring list option" where
  "match_atoms [] = (\<lambda>s. if s = [] then Some [] else None)"
| "match_atoms (a # as) =
     (\<lambda>s. rep (\<lambda>p rest. map_option (Cons p) (match_atoms as rest))
              (a_cls a) (a_lo a) (a_hi a) [] s)"

text \<open>\<open>m[g]\<close>: what the atoms of group \<open>g\<close> have taken.\<close>

fun capture :: "nat \<Rightarrow> atom list \<Rightarrow> jsstring list \<Rightarrow> jsstring" where
  "capture g (a # as) (p # ps) = (if a_grp a = g then p else []) @ capture g as ps"
| "capture g _ _ = []"

definition lit :: "char \<Rightarrow> atom" where
  "lit c = Atom 0 (Lit (ch c)) 1 (Some 1)"

definition spaces0 :: atom where \<comment> \<open>\<^verbatim>\<open>\s*\<close>\<close>
  "spaces0 = Atom 0 Space 0 None"

definition spaces1 :: atom where \<comment> \<open>\<^verbatim>\<open>\s+\<close>\<close>
  "spaces1 = Atom 0 Space 1 None"

definition rest_of_line :: "nat \<Rightarrow> atom" where \<comment> \<open>\<^verbatim>\<open>(.+)\<close>\<close>
  "rest_of_line g = Atom g AnyChar 1 None"

definition re_hhmmss :: "nat \<Rightarrow> atom list" where \<comment> \<open>\<^verbatim>\<open>(\d{2}:\d{2}:\d{2})\<close>\<close>
  "re_hhmmss g = [Atom g Digit 2 (Some 2), Atom g (Lit (ch CHR '':'')) 1 (Some 1),
                  Atom g Digit 2 (Some 2), Atom g (Lit (ch CHR '':'')) 1 (Some 1),
                  Atom g Digit 2 (Some 2)]"

definition re_srt :: "nat \<Rightarrow> atom list" where \<comment> \<open>\<^verbatim>\<open>(\d{2}:\d{2}:\d{2},\d{3})\<close>\<close>
  "re_srt g = re_hhmmss g @ [Atom g (Lit (ch CHR '','')) 1 (Some 1), Atom g Digit 3 (Some 3)]"

definition re_simple :: "nat \<Rightarrow> atom list" where \<comment> \<open>\<^verbatim>\<open>(\d{1,2}:\d{2})\<close>\<close>
  "re_simple g = [Atom g Digit 1 (Some 2), Atom g (Lit (ch CHR '':'')) 1 (Some 1),
                  Atom g Digit 2 (Some 2)]"

definition re_number :: "nat \<Rightarrow> atom list" where \<comment> \<open>\<^verbatim>\<open>(\d+\.?\d*)\<close>\<close>
  "re_number g = [Atom g Digit 1 None, Atom g (Lit (ch CHR ''.'')) 0 (Some 1),
                  Atom g Digit 0 None]"

text \<open>The eight expressions, in the order in which the loop tries them.\<close>

definition re1 :: "atom list" where
  \<comment> \<open>\<^verbatim>\<open>/^\[(\d{2}:\d{2}:\d{2})\s*-\s*(\d{2}:\d{2}:\d{2})\]\s*(.+)$/\<close>\<close>
  "re1 = [lit CHR ''[''] @ re_hhmmss 1 @ [spaces0, lit CHR ''-'', spaces0] @ re_hhmmss 2 @
         [lit CHR '']'', spaces0, rest_of_line 3]"

definition re2 :: "atom list" where
  \<comment> \<open>\<^verbatim>\<open>/^(\d{2}:\d{2}:\d{2},\d{3})\s*-->\s*(\d{2}:\d{2}:\d{2},\d{3})$/\<close>\<close>
  "re2 = re_srt 1 @ [spaces0, lit CHR ''-'', lit CHR ''-'', lit CHR ''>'', spaces0] @ re_srt 2"

definition re3 :: "atom list" where
  \<comment> \<open>\<^verbatim>\<open>/^(\d{1,2}:\d{2})\s*-\s*(\d{1,2}:\d{2})\s*(.+)$/\<close>\<close>
  "re3 = re_simple 1 @ [spaces0, lit CHR ''-'', spaces0] @ re_simple 2 @
         [spaces0, rest_of_line 3]"

definition re4 :: "atom list" where
  \<comment> \<open>\<^verbatim>\<open>/^(\d+\.?\d*)\s*-\s*(\d+\.?\d*)\s*(.+)$/\<close>\<close>
  "re4 = re_number 1 @ [spaces0, lit CHR ''-'', spaces0] @ re_number 2 @
         [spaces0, rest_of_line 3]"

definition re5 :: "atom list" where
  \<comment> \<open>\<^verbatim>\<open>/^\[(\d{1,2}:\d{2})\]\s*(.+)$/\<close>\<close>
  "re5 = [lit CHR ''[''] @ re_simple 1 @ [lit CHR '']'', spaces0, rest_of_line 2]"

definition re6 :: "atom list" where
  \<comment> \<open>\<^verbatim>\<open>/^\((\d{1,2}:\d{2})\)\s*(.+)$/\<close>\<close>
  "re6 = [lit CHR ''(''] @ re_simple 1 @ [lit CHR '')'', spaces0, rest_of_line 2]"

definition re7 :: "atom list" where
  \<comment> \<open>\<^verbatim>\<open>/^(\d{1,2}:\d{2})\s+(.+)$/\<close>\<close>
  "re7 = re_simple 1 @ [spaces1, rest_of_line 2]"

definition re8 :: "atom list" where
  \<comment> \<open>\<^verbatim>\<open>/^(\d+\.?\d*)\s+(.+)$/\<close>\<close>
  "re8 = re_number 1 @ [spaces1, rest_of_line 2]"

section \<open>Numeric conversions\<close>

text \<open>
  \<^verbatim>\<open>Number(s)\<close> on the strings the parser hands to it: a run of decimal digits,
  optionally followed by a point and more digits, has its decimal value. The other
  numeric literals of ECMAScript (a sign, an exponent, a radix prefix, \<^verbatim>\<open>Infinity\<close>,
  surrounding white space, the empty string) are not modelled and give \<open>NaN\<close> here;
  no capture of the eight expressions has one of those forms (lemmas \<open>number_capture\<close>,
  \<open>hhmmss_capture\<close>, \<open>srt_capture\<close> and \<open>simple_capture\<close> below).
\<close>

definition dec :: "jsstring \<Rightarrow> nat" where
  "dec ds = foldl (\<lambda>a d. 10 * a + (d - 48)) 0 ds"

definition Number :: "jsstring \<Rightarrow> jsnum" where
  "Number s =
     (let ip = takeWhile is_digit s; r = dropWhile is_digit s
      in if ip = [] then NaN
         else if r = [] then Num (of_nat (dec ip))
         else if hd r = ch CHR ''.'' \<and> list_all is_digit (tl r)
           then Num (of_nat (dec ip) + of_nat (dec (tl r)) / 10 ^ length (tl r))
         else NaN)"

text \<open>A destructured array element that is missing is \<^verbatim>\<open>undefined\<close>.\<close>

definition elem :: "'a list \<Rightarrow> nat \<Rightarrow> 'a option" where
  "elem xs i = (if i < length xs then Some (xs ! i) else None)"

definition hhmmssToSeconds :: "jsstring \<Rightarrow> jsnum" where
  "hhmmssToSeconds t =
     (let ps = map Number (split_on (ch CHR '':'') t);
          hh = to_number (elem ps 0); mm = to_number (elem ps 1); ss = to_number (elem ps 2)
      in js_add (js_add (js_mul hh (Num 3600)) (js_mul mm (Num 60))) ss)"

text \<open>\<^verbatim>\<open>Number(undefined)\<close> is \<open>NaN\<close>.\<close>

definition srtToSeconds :: "jsstring \<Rightarrow> jsnum" where
  "srtToSeconds t =
     (let ps = split_on (ch CHR '','') t;
          time = (case elem ps 0 of Some x \<Rightarrow> x | None \<Rightarrow> []);
          ms = (case elem ps 1 of Some x \<Rightarrow> Number x | None \<Rightarrow> NaN)
      in js_add (hhmmssToSeconds time) (js_div ms 1000))"

definition simpleToSeconds :: "jsstring \<Rightarrow> jsnum" where
  "simpleToSeconds t =
     (let ps = map Number (split_on (ch CHR '':'') t);
          m = to_number (elem ps 0); s = to_number (elem ps 1)
      in js_add (js_mul m (Num 60)) s)"

section \<open>The timestamp parser\<close>

text \<open>
  One turn of the loop of \<^verbatim>\<open>parseTranscriptFile\<close> (lines 726 to 768): \<open>line\<close> is
  \<^verbatim>\<open>lines[i]\<close>, \<open>rest\<close> the lines after it, and the result is what the turn
  pushes on \<^verbatim>\<open>timestamped\<close>. Every branch ends in \<^verbatim>\<open>continue\<close>, so the next turn
  is at \<^verbatim>\<open>lines[i + 1]\<close> whatever the branch.
\<close>

definition parse_line :: "jsstring \<Rightarrow> jsstring list \<Rightarrow> timed_entry list" where
  "parse_line line rest =
    (if line = [] then []
     else case match_atoms re1 line of
       Some m \<Rightarrow>
         [\<lparr>seg_start = hhmmssToSeconds (capture 1 re1 m),
           seg_end = Some (hhmmssToSeconds (capture 2 re1 m)),
           seg_text = trim (capture 3 re1 m)\<rparr>]
     | None \<Rightarrow>
    (case match_atoms re2 line of
       Some m \<Rightarrow>
         (let next = (case rest of [] \<Rightarrow> [] | l # _ \<Rightarrow> trim l)
          in if next \<noteq> []
             then [\<lparr>seg_start = srtToSeconds (capture 1 re2 m),
                    seg_end = Some (srtToSeconds (capture 2 re2 m)),
                    seg_text = next\<rparr>]
             else [])
     | None \<Rightarrow>
    (case match_atoms re3 line of
       Some m \<Rightarrow>
         [\<lparr>seg_start = simpleToSeconds (capture 1 re3 m),
           seg_end = Some (simpleToSeconds (capture 2 re3 m)),
           seg_text = trim (capture 3 re3 m)\<rparr>]
     | None \<Rightarrow>
    (case match_atoms re4 line of
       Some m \<Rightarrow>
         [\<lparr>seg_start = Number (capture 1 re4 m),
           seg_end = Some (Number (capture 2 re4 m)),
           seg_text = trim (capture 3 re4 m)\<rparr>]
     | None \<Rightarrow>
    (case match_atoms re5 line of
       Some m \<Rightarrow>
         [\<lparr>seg_start = simpleToSeconds (capture 1 re5 m), seg_end = None,
           seg_text = trim (capture 2 re5 m)\<rparr>]
     | None \<Rightarrow>
    (case match_atoms re6 line of
       Some m \<Rightarrow>
         [\<lparr>seg_start = simpleToSeconds (capture 1 re6 m), seg_end = None,
           seg_text = trim (capture 2 re6 m)\<rparr>]
     | None \<Rightarrow>
    (case match_atoms re7 line of
       Some m \<Rightarrow>
         [\<lparr>seg_start = simpleToSeconds (capture 1 re7 m), seg_end = None,
           seg_text = trim (capture 2 re7 m)\<rparr>]
     | None \<Rightarrow>
    (case match_atoms re8 line of
       Some m \<Rightarrow>
         [\<lparr>seg_start = Number (capture 1 re8 m), seg_end = None,
           seg_text = trim (capture 2 re8 m)\<rparr>]
     | None \<Rightarrow> []))))))))"

fun parse_lines :: "jsstring list \<Rightarrow> timed_entry list" where
  "parse_lines [] = []"
| "parse_lines (line # rest) = parse_line line rest @ parse_lines rest"

text \<open>The entries before synthesis (\<^verbatim>\<open>timestamped\<close> after the loop).\<close>

definition timestamped :: "jsstring \<Rightarrow> timed_entry list" where
  "timestamped text = parse_lines (map trim (split_lines text))"

definition parseTranscriptFile :: "jsstring \<Rightarrow> timed_entry list" where
  "parseTranscriptFile text = synthesize (timestamped text)"

section \<open>The filename sanitizer\<close>

text \<open>
  \<^verbatim>\<open>
  function safeFilename(text) {
      let s = text.normalize('NFKD').replace(/[<>:"/\\|?*\x00-\x1f]/g, '');
      s = s.replace(/[^\w\s\-_.]/g, '_').replace(/[\-\s_]+/g, '_').replace(/^[_\.]+|[_\.]+$/g, '');
      if (s.length < 2) s = 'audio_segment';
      return s.slice(0, 25);
  }
  \<close>
  (the expressions as the browser receives them, after the escapes of the Python string
  literal). The Unicode decomposition tables behind \<^verbatim>\<open>normalize('NFKD')\<close> are not
  part of the repository: the normalization is the parameter \<open>nfkd\<close>.
\<close>

definition is_reserved :: "nat \<Rightarrow> bool" where \<comment> \<open>\<^verbatim>\<open>[<>:"/\\|?*\x00-\x1f]\<close>\<close>
  "is_reserved c \<longleftrightarrow>
     c = ch CHR ''<'' \<or> c = ch CHR ''>'' \<or> c = ch CHR '':'' \<or> c = 34 \<or> c = ch CHR ''/'' \<or>
     c = 92 \<or> c = ch CHR ''|'' \<or> c = ch CHR ''?'' \<or> c = ch CHR ''*'' \<or> c \<le> 31"

definition is_kept :: "nat \<Rightarrow> bool" where \<comment> \<open>\<^verbatim>\<open>[\w\s\-_.]\<close>\<close>
  "is_kept c \<longleftrightarrow> is_word c \<or> is_space c \<or> c = ch CHR ''-'' \<or> c = ch CHR ''_'' \<or> c = ch CHR ''.''"

definition is_sep :: "nat \<Rightarrow> bool" where \<comment> \<open>\<^verbatim>\<open>[\-\s_]\<close>\<close>
  "is_sep c \<longleftrightarrow> c = ch CHR ''-'' \<or> is_space c \<or> c = ch CHR ''_''"

definition is_edge :: "nat \<Rightarrow> bool" where \<comment> \<open>\<^verbatim>\<open>[_\.]\<close>\<close>
  "is_edge c \<longleftrightarrow> c = ch CHR ''_'' \<or> c = ch CHR ''.''"

text \<open>\<^verbatim>\<open>replace(/[\-\s_]+/g, '_')\<close>: every maximal run of separators becomes one underscore.\<close>

function collapse :: "jsstring \<Rightarrow> jsstring" where
  "collapse [] = []"
| "collapse (c # cs) =
     (if is_sep c then ch CHR ''_'' # collapse (dropWhile is_sep cs) else c # collapse cs)"
  by pat_completeness auto
termination
  by (relation "measure length") (auto simp: length_dropWhile_le less_Suc_eq_le)

text \<open>
  \<^verbatim>\<open>replace(/^[_\.]+|[_\.]+$/g, '')\<close>: the run of edge characters at the start and the
  run at the end are deleted.
\<close>

definition strip_edges :: "jsstring \<Rightarrow> jsstring" where
  "strip_edges s = rev (dropWhile is_edge (rev (dropWhile is_edge s)))"

definition safeFilename :: "(jsstring \<Rightarrow> jsstring) \<Rightarrow> jsstring \<Rightarrow> jsstring" where
  "safeFilename nfkd text =
     (let s = filter (\<lambda>c. \<not> is_reserved c) (nfkd text);
          s = strip_edges (collapse (map (\<lambda>c. if is_kept c then c else ch CHR ''_'') s));
          s = (if length s < 2 then js ''audio_segment'' else s)
      in take 25 s)"

section \<open>The container encoder\<close>

text \<open>
  An element of a \<^verbatim>\<open>Float32Array\<close>: a finite binary32 value (a rational), an infinity
  or NaN. With a binary32 operand the products \<^verbatim>\<open>s * 0x8000\<close> and \<^verbatim>\<open>s * 0x7FFF\<close>
  are exact in binary64 (24 significant bits times 15), so the exact arithmetic of the
  model is the arithmetic of the code here.
\<close>

datatype f32 = Fin rat | PosInf | NegInf | NaN32

text \<open>\<^verbatim>\<open>Math.max(-1, Math.min(1, x))\<close>\<close>

fun clamp1 :: "f32 \<Rightarrow> jsnum" where
  "clamp1 (Fin r) = Num (max (- 1) (min 1 r))"
| "clamp1 PosInf = Num 1"
| "clamp1 NegInf = Num (- 1)"
| "clamp1 NaN32 = NaN"

fun js_lt :: "jsnum \<Rightarrow> jsnum \<Rightarrow> bool" where
  "js_lt (Num a) (Num b) = (a < b)"
| "js_lt _ _ = False"

fun js_le :: "jsnum \<Rightarrow> jsnum \<Rightarrow> bool" where
  "js_le (Num a) (Num b) = (a \<le> b)"
| "js_le _ _ = False"

text \<open>
  The integer conversion of \<^verbatim>\<open>setInt16\<close> and of \<^verbatim>\<open>slice\<close>: truncation towards
  zero, and 0 for NaN.
\<close>

fun to_int :: "jsnum \<Rightarrow> int" where
  "to_int (Num r) = (if r < 0 then - \<lfloor>- r\<rfloor> else \<lfloor>r\<rfloor>)"
| "to_int NaN = 0"

type_synonym byte = "8 word"

text \<open>
  A \<^verbatim>\<open>DataView\<close> over its own \<^verbatim>\<open>ArrayBuffer\<close> is the list of its bytes. A write or
  read that does not fit throws a RangeError: \<open>None\<close>.
\<close>

type_synonym dataview = "byte list"

text \<open>The \<open>n\<close> low bytes of an integer, least significant first.\<close>

primrec le_bytes :: "nat \<Rightarrow> int \<Rightarrow> byte list" where
  "le_bytes 0 x = []"
| "le_bytes (Suc n) x = word_of_int x # le_bytes n (x div 256)"

primrec write_bytes :: "dataview \<Rightarrow> nat \<Rightarrow> byte list \<Rightarrow> dataview" where
  "write_bytes v off [] = v"
| "write_bytes v off (b # bs) = write_bytes (v[off := b]) (Suc off) bs"

definition set_le :: "nat \<Rightarrow> dataview \<Rightarrow> nat \<Rightarrow> int \<Rightarrow> dataview option" where
  "set_le n v off x =
     (if off + n \<le> length v then Some (write_bytes v off (le_bytes n x)) else None)"

definition setUint8 :: "dataview \<Rightarrow> nat \<Rightarrow> int \<Rightarrow> dataview option" where
  "setUint8 = set_le 1"

definition setUint16 :: "dataview \<Rightarrow> nat \<Rightarrow> int \<Rightarrow> dataview option" where
  "setUint16 = set_le 2"

definition setUint32 :: "dataview \<Rightarrow> nat \<Rightarrow> int \<Rightarrow> dataview option" where
  "setUint32 = set_le 4"

text \<open>\<^verbatim>\<open>setInt16(off, x, true)\<close>: \<open>x\<close> is truncated, then taken modulo \<open>2^16\<close>.\<close>

definition setInt16 :: "dataview \<Rightarrow> nat \<Rightarrow> jsnum \<Rightarrow> dataview option" where
  "setInt16 v off x = set_le 2 v off (to_int x)"

text \<open>\<^verbatim>\<open>getInt16(off, true)\<close>: two bytes, little-endian, read as two's complement.\<close>

definition getInt16 :: "dataview \<Rightarrow> nat \<Rightarrow> int option" where
  "getInt16 v off =
     (if off + 2 \<le> length v
      then (let u = uint (v ! off) + 256 * uint (v ! (off + 1))
            in Some (if u < 32768 then u else u - 65536))
      else None)"

text \<open>
  \<^verbatim>\<open>
  function floatTo16BitPCM(float32Array) {
      const out = new DataView(new ArrayBuffer(float32Array.length * 2));
      let offset = 0;
      for (let i = 0; i < float32Array.length; i++) {
          let s = Math.max(-1, Math.min(1, float32Array[i]));
          out.setInt16(offset, s < 0 ? s * 0x8000 : s * 0x7FFF, true);
          offset += 2;
      }
      return out;
  }
  \<close>
\<close>

definition scale :: "jsnum \<Rightarrow> jsnum" where
  "scale s = (if js_lt s (Num 0) then js_mul s (Num 32768) else js_mul s (Num 32767))"

fun pcm_loop :: "f32 list \<Rightarrow> dataview \<Rightarrow> nat \<Rightarrow> dataview option" where
  "pcm_loop [] out offset = Some out"
| "pcm_loop (x # xs) out offset =
     (case setInt16 out offset (scale (clamp1 x)) of
        None \<Rightarrow> None
      | Some out' \<Rightarrow> pcm_loop xs out' (offset + 2))"

definition floatTo16BitPCM :: "f32 list \<Rightarrow> dataview option" where
  "floatTo16BitPCM float32Array = pcm_loop float32Array (replicate (length float32Array * 2) 0) 0"

text \<open>
  \<^verbatim>\<open>encodeWAV\<close> (lines 832 to 859). Its local functions \<^verbatim>\<open>writeString\<close>,
  \<^verbatim>\<open>writeUint32\<close> and \<^verbatim>\<open>writeUint16\<close> write at the shared \<^verbatim>\<open>offset\<close> and advance
  it: they are steps on the pair of the view and the offset.
\<close>

type_synonym writer = "dataview \<times> nat"

fun writeString_loop :: "jsstring \<Rightarrow> dataview \<Rightarrow> nat \<Rightarrow> nat \<Rightarrow> dataview option" where
  "writeString_loop [] v offset i = Some v"
| "writeString_loop (c # cs) v offset i =
     (case setUint8 v (offset + i) (int c) of
        None \<Rightarrow> None
      | Some v' \<Rightarrow> writeString_loop cs v' offset (i + 1))"

definition writeString :: "jsstring \<Rightarrow> writer \<Rightarrow> writer option" where
  "writeString s w =
     (case writeString_loop s (fst w) (snd w) 0 of
        None \<Rightarrow> None
      | Some v \<Rightarrow> Some (v, snd w + length s))"

definition writeUint32 :: "int \<Rightarrow> writer \<Rightarrow> writer option" where
  "writeUint32 x w = map_option (\<lambda>v. (v, snd w + 4)) (setUint32 (fst w) (snd w) x)"

definition writeUint16 :: "int \<Rightarrow> writer \<Rightarrow> writer option" where
  "writeUint16 x w = map_option (\<lambda>v. (v, snd w + 2)) (setUint16 (fst w) (snd w) x)"

text \<open>
  \<^verbatim>\<open>for (let i = 0; i < dataLen; i += 2) view.setInt16(44 + i, pcm.getInt16(i, true), true);\<close>
\<close>

function copy_loop :: "dataview \<Rightarrow> dataview \<Rightarrow> nat \<Rightarrow> nat \<Rightarrow> dataview option" where
  "copy_loop pcm view dataLen i =
     (if i < dataLen
      then (case getInt16 pcm i of
              None \<Rightarrow> None
            | Some x \<Rightarrow>
                (case setInt16 view (44 + i) (Num (of_int x)) of
                   None \<Rightarrow> None
                 | Some view' \<Rightarrow> copy_loop pcm view' dataLen (i + 2)))
      else Some view)"
  by pat_completeness auto
termination
  by (relation "measure (\<lambda>(pcm, view, dataLen, i). dataLen - i)") auto

declare copy_loop.simps [simp del]

definition encodeWAV :: "f32 list \<Rightarrow> nat \<Rightarrow> byte list option" where
  "encodeWAV samples sampleRate =
     (let bytesPerSample = 2; numChannels = 1;
          blockAlign = numChannels * bytesPerSample;
          byteRate = sampleRate * blockAlign;
          dataLen = length samples * bytesPerSample;
          w0 = (replicate (44 + dataLen) 0, 0)
      in Option.bind (writeString (js ''RIFF'') w0) (\<lambda>w.
         Option.bind (writeUint32 (36 + int dataLen) w) (\<lambda>w.
         Option.bind (writeString (js ''WAVE'') w) (\<lambda>w.
         Option.bind (writeString (js ''fmt '') w) (\<lambda>w.
         Option.bind (writeUint32 16 w) (\<lambda>w.
         Option.bind (writeUint16 1 w) (\<lambda>w.
         Option.bind (writeUint16 (int numChannels) w) (\<lambda>w.
         Option.bind (writeUint32 (int sampleRate) w) (\<lambda>w.
         Option.bind (writeUint32 (int byteRate) w) (\<lambda>w.
         Option.bind (writeUint16 (int blockAlign) w) (\<lambda>w.
         Option.bind (writeUint16 16 w) (\<lambda>w.
         Option.bind (writeString (js ''data'') w) (\<lambda>w.
         Option.bind (writeUint32 (int dataLen) w) (\<lambda>w.
         Option.bind (floatTo16BitPCM samples) (\<lambda>pcm.
         copy_loop pcm (fst w) dataLen 0)))))))))))))))"

section \<open>Rounding to binary64\<close>

text \<open>
  The largest power of two that is at most \<open>x\<close>, for \<open>x\<close> positive: found by halving
  when \<open>1 \<le> x\<close> and by doubling when \<open>x < 1\<close>.
\<close>

function binade_up :: "rat \<Rightarrow> rat" where
  "binade_up x = (if x < 2 then 1 else 2 * binade_up (x / 2))"
  by pat_completeness auto
termination
proof (relation "measure (\<lambda>x. nat \<lfloor>x\<rfloor>)")
  fix x :: rat
  assume "\<not> x < 2"
  then have "x / 2 \<le> x - 1" by simp
  then have "\<lfloor>x / 2\<rfloor> \<le> \<lfloor>x - 1\<rfloor>" by (rule floor_mono)
  moreover have "2 \<le> \<lfloor>x\<rfloor>" using \<open>\<not> x < 2\<close> by (simp add: le_floor_iff)
  ultimately show "(x / 2, x) \<in> measure (\<lambda>x. nat \<lfloor>x\<rfloor>)" by simp
qed simp

function binade_down :: "rat \<Rightarrow> rat" where
  "binade_down x = (if x \<le> 0 \<or> 1 \<le> x then 1 else binade_down (2 * x) / 2)"
  by pat_completeness auto
termination
proof (relation "measure (\<lambda>x. nat \<lfloor>1 / x\<rfloor>)")
  fix x :: rat
  assume "\<not> (x \<le> 0 \<or> 1 \<le> x)"
  then have x: "0 < x" "x < 1" by simp_all
  define t where "t = 1 / x"
  have t: "1 \<le> t" using x by (simp add: t_def)
  then have f: "1 \<le> \<lfloor>t\<rfloor>" by (simp add: le_floor_iff)
  have "t < of_int \<lfloor>t\<rfloor> + 1" by linarith
  moreover have "(1 :: rat) \<le> of_int \<lfloor>t\<rfloor>" using f by linarith
  ultimately have "t / 2 < of_int \<lfloor>t\<rfloor>" by linarith
  then have "\<lfloor>t / 2\<rfloor> < \<lfloor>t\<rfloor>" by (simp only: floor_less_iff)
  then have "nat \<lfloor>t / 2\<rfloor> < nat \<lfloor>t\<rfloor>" using f by linarith
  moreover have "1 / (2 * x) = t / 2" "1 / x = t" by (simp_all add: t_def)
  ultimately have "nat \<lfloor>1 / (2 * x)\<rfloor> < nat \<lfloor>1 / x\<rfloor>" by (simp only:)
  then show "(2 * x, x) \<in> measure (\<lambda>x. nat \<lfloor>1 / x\<rfloor>)"
    by (simp only: in_measure)
qed simp

declare binade_up.simps [simp del] binade_down.simps [simp del]

definition binade :: "rat \<Rightarrow> rat" where
  "binade x = (if 1 \<le> x then binade_up x else binade_down x)"

text \<open>
  The spacing of the binary64 values around a positive \<open>x\<close>: 52 fraction bits below the
  binade of \<open>x\<close>, and no finer than that of the least normal binade
  \<open>1 / 2 ^ 1022\<close> (the subnormal numbers are spaced by \<open>1 / 2 ^ 1074\<close>).
\<close>

definition quantum :: "rat \<Rightarrow> rat" where
  "quantum x = max (binade x) (1 / 2 ^ 1022) / 2 ^ 52"

text \<open>The nearest integer, a tie going to the even one.\<close>

definition round_even :: "rat \<Rightarrow> int" where
  "round_even t =
     (let n = \<lfloor>t\<rfloor>; f = t - of_int n
      in if f < 1 / 2 then n else if 1 / 2 < f then n + 1 else if even n then n else n + 1)"

text \<open>
  The binary64 value nearest to \<open>x\<close> (round to nearest, ties to even), which is what
  every arithmetic operation of the language returns for the exact result \<open>x\<close>. A result
  of magnitude \<open>2 ^ 1024\<close> or more is infinite in the language; here it stays finite.
\<close>

definition fl64 :: "rat \<Rightarrow> rat" where
  "fl64 x = (if x = 0 then 0
     else sgn x * of_int (round_even (\<bar>x\<bar> / quantum \<bar>x\<bar>)) * quantum \<bar>x\<bar>)"

text \<open>
  \<^verbatim>\<open>a * b\<close> and \<^verbatim>\<open>a - b\<close> on binary64 operands: the exact result, rounded. An operand
  that is not a binary64 value (the parser above computes exactly) stands for the
  binary64 value nearest to it; on a binary64 value \<open>fl64\<close> is the identity.
\<close>

fun js_mul64 :: "jsnum \<Rightarrow> jsnum \<Rightarrow> jsnum" where
  "js_mul64 (Num a) (Num b) = Num (fl64 (fl64 a * fl64 b))"
| "js_mul64 _ _ = NaN"

fun js_sub64 :: "jsnum \<Rightarrow> jsnum \<Rightarrow> jsnum" where
  "js_sub64 (Num a) (Num b) = Num (fl64 (fl64 a - fl64 b))"
| "js_sub64 _ _ = NaN"

section \<open>The segment extractor\<close>

fun js_floor :: "jsnum \<Rightarrow> jsnum" where
  "js_floor (Num r) = Num (of_int \<lfloor>r\<rfloor>)"
| "js_floor NaN = NaN"

fun js_max :: "jsnum \<Rightarrow> jsnum \<Rightarrow> jsnum" where
  "js_max (Num a) (Num b) = Num (max a b)"
| "js_max _ _ = NaN"

fun js_min :: "jsnum \<Rightarrow> jsnum \<Rightarrow> jsnum" where
  "js_min (Num a) (Num b) = Num (min a b)"
| "js_min _ _ = NaN"

text \<open>
  \<^verbatim>\<open>y.slice(start, end)\<close> of a typed array: each bound is truncated to an integer
  (NaN to 0), a negative bound counts from the end, and both are clamped to the length.
\<close>

definition slice_index :: "nat \<Rightarrow> jsnum \<Rightarrow> nat" where
  "slice_index len x =
     (let k = to_int x in if k < 0 then nat (max (int len + k) 0) else nat (min k (int len)))"

definition slice :: "'a list \<Rightarrow> jsnum \<Rightarrow> jsnum \<Rightarrow> 'a list" where
  "slice y start fin =
     (let k = slice_index (length y) start; final = slice_index (length y) fin
      in take (final - k) (drop k y))"

text \<open>\<^verbatim>\<open>String(n)\<close> for a non-negative integer, and \<^verbatim>\<open>padStart(n, '0')\<close>.\<close>

fun show_nat :: "nat \<Rightarrow> jsstring" where
  "show_nat n = (if n < 10 then [48 + n] else show_nat (n div 10) @ [48 + n mod 10])"

declare show_nat.simps [simp del]

definition padStart :: "nat \<Rightarrow> nat \<Rightarrow> jsstring \<Rightarrow> jsstring" where
  "padStart n c s = replicate (n - length s) c @ s"

record clip =
  filename :: jsstring
  blob :: "byte list"
  clip_text :: jsstring
  start_time :: jsnum
  end_time :: "jsnum option"
  duration :: jsnum

text \<open>
  \<^verbatim>\<open>extractSegments\<close> (lines 861 to 881). The state of the loop is the array \<^verbatim>\<open>out\<close>
  and the lines written by \<^verbatim>\<open>log\<close>; \<open>None\<close> is an exception thrown by \<^verbatim>\<open>encodeWAV\<close>.
  \<^verbatim>\<open>Math.floor\<close> is applied to the binary64 products \<^verbatim>\<open>seg.start * sr\<close> and
  \<^verbatim>\<open>seg.end * sr\<close> (lines 865 and 866), and \<^verbatim>\<open>duration\<close> is the binary64 difference
  (line 877).
\<close>

definition skip_message :: "nat \<Rightarrow> jsstring" where
  "skip_message i = js ''Skipped invalid timing for segment '' @ show_nat (i + 1)"

definition segment_filename :: "(jsstring \<Rightarrow> jsstring) \<Rightarrow> nat \<Rightarrow> jsstring \<Rightarrow> jsstring" where
  "segment_filename nfkd i text =
     js ''segment_'' @ padStart 3 (ch CHR ''0'') (show_nat (i + 1)) @ js ''_'' @
     safeFilename nfkd (take 30 text) @ js ''.wav''"

fun extract_loop :: "(jsstring \<Rightarrow> jsstring) \<Rightarrow> f32 list \<Rightarrow> nat \<Rightarrow> timed_entry list \<Rightarrow> nat \<Rightarrow>
    clip list \<times> jsstring list \<Rightarrow> (clip list \<times> jsstring list) option" where
  "extract_loop nfkd y sr [] i st = Some st"
| "extract_loop nfkd y sr (seg # segs) i (out, logged) =
     (let start = js_max (Num 0) (js_floor (js_mul64 (seg_start seg) (Num (of_nat sr))));
          fin = js_min (Num (of_nat (length y)))
                  (js_floor (js_mul64 (to_number (seg_end seg)) (Num (of_nat sr))))
      in if js_le fin start
         then extract_loop nfkd y sr segs (i + 1) (out, logged @ [skip_message i])
         else (case encodeWAV (slice y start fin) sr of
                 None \<Rightarrow> None
               | Some b \<Rightarrow>
                   extract_loop nfkd y sr segs (i + 1)
                     (out @ [\<lparr>filename = segment_filename nfkd i (seg_text seg), blob = b,
                               clip_text = seg_text seg, start_time = seg_start seg,
                               end_time = seg_end seg,
                               duration = js_sub64 (to_number (seg_end seg)) (seg_start seg)\<rparr>],
                      logged)))"

definition extractSegments :: "(jsstring \<Rightarrow> jsstring) \<Rightarrow> f32 list \<Rightarrow> nat \<Rightarrow> timed_entry list \<Rightarrow>
    (clip list \<times> jsstring list) option" where
  "extractSegments nfkd y sr segments = extract_loop nfkd y sr segments 0 ([], [])"

section \<open>The archive builder\<close>

text \<open>
  \<^verbatim>\<open>x.toFixed(f)\<close> after ECMAScript: with \<open>n\<close> the integer nearest to
  \<open>\<bar>x\<bar> * 10^f\<close> (the larger one of two), the digits of \<open>n\<close>, padded with zeros to
  \<open>f + 1\<close> digits, with a point before the last \<open>f\<close>; a minus sign in front when
  \<open>x < 0\<close>. From \<open>10^21\<close> on the result is \<^verbatim>\<open>String(x)\<close> instead, which is the
  parameter \<open>big\<close>.
\<close>

definition toFixed :: "(rat \<Rightarrow> jsstring) \<Rightarrow> nat \<Rightarrow> jsnum \<Rightarrow> jsstring" where
  "toFixed big f x =
     (case x of
        NaN \<Rightarrow> js ''NaN''
      | Num r \<Rightarrow>
          (if r < 0 then js ''-'' else []) @
          (if 10 ^ 21 \<le> \<bar>r\<bar> then big \<bar>r\<bar>
           else (let m = padStart (f + 1) (ch CHR ''0'') (show_nat (nat \<lfloor>\<bar>r\<bar> * 10 ^ f + 1 / 2\<rfloor>))
                 in if f = 0 then m
                    else take (length m - f) m @ js ''.'' @ drop (length m - f) m)))"

datatype content = Bytes "byte list" | Text jsstring

text \<open>
  The archive is the sequence of the \<^verbatim>\<open>zip.file(name, data)\<close> calls that
  \<^verbatim>\<open>makeZip\<close> makes on the packaging library, in order. \<open>None\<close> is the TypeError of
  \<^verbatim>\<open>f.end_time.toFixed\<close> on a clip without \<^verbatim>\<open>end_time\<close>.
\<close>

type_synonym archive = "(jsstring \<times> content) list"

definition manifest_entry :: "(rat \<Rightarrow> jsstring) \<Rightarrow> nat \<Rightarrow> clip \<Rightarrow> jsstring option" where
  "manifest_entry big idx f =
     (case end_time f of
        None \<Rightarrow> None
      | Some e \<Rightarrow>
          Some (js ''Segment '' @ show_nat (idx + 1) @ js '': '' @ filename f @
                [10] @ js ''  Text: '' @ clip_text f @
                [10] @ js ''  Start: '' @ toFixed big 2 (start_time f) @ js ''s'' @
                [10] @ js ''  End: '' @ toFixed big 2 e @ js ''s'' @
                [10] @ js ''  Duration: '' @ toFixed big 2 (duration f) @ js ''s'' @ [10, 10]))"

fun makeZip_loop :: "(rat \<Rightarrow> jsstring) \<Rightarrow> clip list \<Rightarrow> nat \<Rightarrow> archive \<times> jsstring \<Rightarrow>
    (archive \<times> jsstring) option" where
  "makeZip_loop big [] idx st = Some st"
| "makeZip_loop big (f # fs) idx (files_added, meta) =
     (case manifest_entry big idx f of
        None \<Rightarrow> None
      | Some e \<Rightarrow> makeZip_loop big fs (idx + 1)
                    (files_added @ [(filename f, Bytes (blob f))], meta @ e))"

definition manifest_header :: jsstring where
  "manifest_header = js ''Audio Segmentation Results'' @ [10] @ replicate 50 (ch CHR ''='') @ [10, 10]"

definition makeZip :: "(rat \<Rightarrow> jsstring) \<Rightarrow> clip list \<Rightarrow> archive option" where
  "makeZip big files =
     (case makeZip_loop big files 0 ([], manifest_header) of
        None \<Rightarrow> None
      | Some (files_added, meta) \<Rightarrow> Some (files_added @ [(js ''metadata.txt'', Text meta)]))"

section \<open>The encoder in the words of the specification\<close>

text \<open>
  What the encoder stores for a sample, in the words of the specification but with
  truncation towards zero in place of rounding, and the value that would be stored if the
  specification's \<open>round\<close> were taken literally.
\<close>

fun stored_value :: "f32 \<Rightarrow> int" where
  "stored_value (Fin s) =
     (let v = max (- 1) (min 1 s) * (if s < 0 then 32768 else 32767)
      in if v < 0 then - \<lfloor>- v\<rfloor> else \<lfloor>v\<rfloor>)"
| "stored_value PosInf = 32767"
| "stored_value NegInf = - 32768"
| "stored_value NaN32 = 0"

definition rounded_value :: "rat \<Rightarrow> int" where
  "rounded_value s = round (max (- 1) (min 1 s) * (if s < 0 then 32768 else 32767))"

definition str_bytes :: "jsstring \<Rightarrow> byte list" where
  "str_bytes s = map (\<lambda>c. word_of_int (int c)) s"

text \<open>The layout of section 4.5 of the specification: the 44 bytes before the samples.\<close>

definition wav_header :: "nat \<Rightarrow> nat \<Rightarrow> byte list" where
  "wav_header sampleRate dataLen =
     str_bytes (js ''RIFF'') @ le_bytes 4 (36 + int dataLen) @ str_bytes (js ''WAVE'') @
     str_bytes (js ''fmt '') @ le_bytes 4 16 @ le_bytes 2 1 @ le_bytes 2 1 @
     le_bytes 4 (int sampleRate) @ le_bytes 4 (int (sampleRate * 2)) @ le_bytes 2 2 @
     le_bytes 2 16 @ str_bytes (js ''data'') @ le_bytes 4 (int dataLen)"

definition pcm_bytes :: "f32 list \<Rightarrow> byte list" where
  "pcm_bytes samples = concat (map (\<lambda>x. le_bytes 2 (stored_value x)) samples)"

text \<open>The state of the writer after the bytes \<open>p\<close> have been written to a fresh view of \<open>n\<close> bytes.\<close>

definition writer_at :: "nat \<Rightarrow> byte list \<Rightarrow> writer" where
  "writer_at n p = (p @ replicate (n - length p) 0, length p)"

text \<open>The unsigned little-endian value of the \<open>n\<close> bytes at an offset: a header field read back.\<close>

definition get_le :: "nat \<Rightarrow> byte list \<Rightarrow> nat \<Rightarrow> int" where
  "get_le n bs off = foldr (\<lambda>b acc. uint b + 256 * acc) (take n (drop off bs)) 0"

section \<open>A decoder for the container\<close>

text \<open>
  Modelled from the spec: the samples of a data chunk, two bytes each, little-endian and
  signed ("16-bit signed PCM ..., little-endian" in section 4.5). The repository has no
  decoder of its own: the page decodes with the browser's \<^verbatim>\<open>decodeAudioData\<close>.
\<close>

fun pcm_samples :: "byte list \<Rightarrow> int list" where
  "pcm_samples (a # b # rest) =
     (let u = uint a + 256 * uint b in if u < 32768 then u else u - 65536) # pcm_samples rest"
| "pcm_samples _ = []"

text \<open>
  Modelled from the spec: the compliant decoder of the round-trip property, which the
  repository does not contain. It reads back the layout that section 4.5 prescribes: the
  four tags, a 16-byte PCM format chunk with one channel and 16 bits per sample, the
  sample rate, and the data chunk with its size; it returns the sample rate and the
  16-bit samples.
\<close>

definition decodeWAV :: "byte list \<Rightarrow> (nat \<times> int list) option" where
  "decodeWAV w =
     (if 44 \<le> length w \<and>
         take 4 w = str_bytes (js ''RIFF'') \<and>
         take 4 (drop 8 w) = str_bytes (js ''WAVE'') \<and>
         take 4 (drop 12 w) = str_bytes (js ''fmt '') \<and>
         get_le 4 w 16 = 16 \<and> get_le 2 w 20 = 1 \<and> get_le 2 w 22 = 1 \<and>
         get_le 2 w 34 = 16 \<and>
         take 4 (drop 36 w) = str_bytes (js ''data'') \<and>
         get_le 4 w 40 \<le> int (length w) - 44
      then Some (nat (get_le 4 w 24), pcm_samples (take (nat (get_le 4 w 40)) (drop 44 w)))
      else None)"

text \<open>
  Modelled from the spec: the float that a decoder hands on for the 16-bit sample \<open>v\<close>.
  The specification does not say which; the model takes \<open>v / 32768\<close>, the usual
  conversion of 16-bit PCM to floating point.
\<close>

definition to_float :: "int \<Rightarrow> f32" where
  "to_float v = Fin (of_int v / 32768)"

text \<open>
  Modelled from the spec: the other symmetric conversion in use, \<open>v / 32767\<close>, for
  comparison.
\<close>

definition to_float_32767 :: "int \<Rightarrow> f32" where
  "to_float_32767 v = Fin (of_int v / 32767)"

section \<open>The extractor in the words of the specification\<close>

text \<open>
  A Segment of the data model has a numeric start, a numeric end and a text. The index
  range follows section 4.4, and \<open>expected_clips\<close> is what the specification asks of
  the extractor: no clip for a segment whose range is empty, and otherwise one clip with
  the encoded samples \<open>[startIndex, endIndex)\<close>. The data model gives start and end as
  floating-point seconds, so the products \<open>start * sampleRate\<close> and \<open>end * sampleRate\<close>
  and the duration \<open>end - start\<close> are those of binary64 numbers.
\<close>

type_synonym segment = "rat \<times> rat \<times> jsstring"

definition as_entry :: "segment \<Rightarrow> timed_entry" where
  "as_entry s = (case s of (a, b, t) \<Rightarrow> \<lparr>seg_start = Num a, seg_end = Some (Num b), seg_text = t\<rparr>)"

text \<open>
  \<^verbatim>\<open>normalize('NFKD')\<close> on a string of ASCII characters, which it leaves unchanged:
  the instance of the parameter \<open>nfkd\<close> for the concrete ASCII inputs below.
\<close>

definition nfkd_ascii :: "jsstring \<Rightarrow> jsstring" where
  "nfkd_ascii s = s"

definition startIndex :: "nat \<Rightarrow> rat \<Rightarrow> int" where
  "startIndex sr a = max 0 \<lfloor>fl64 (fl64 a * fl64 (of_nat sr))\<rfloor>"

definition endIndex :: "nat \<Rightarrow> nat \<Rightarrow> rat \<Rightarrow> int" where
  "endIndex len sr b = min (int len) \<lfloor>fl64 (fl64 b * fl64 (of_nat sr))\<rfloor>"

definition is_skipped :: "nat \<Rightarrow> nat \<Rightarrow> segment \<Rightarrow> bool" where
  "is_skipped len sr s = (case s of (a, b, t) \<Rightarrow> endIndex len sr b \<le> startIndex sr a)"

definition expected_clip :: "(jsstring \<Rightarrow> jsstring) \<Rightarrow> f32 list \<Rightarrow> nat \<Rightarrow> nat \<Rightarrow> segment \<Rightarrow> clip" where
  "expected_clip nfkd y sr i s =
     (case s of (a, b, t) \<Rightarrow>
        (let si = nat (startIndex sr a); ei = nat (endIndex (length y) sr b);
             cut = take (ei - si) (drop si y)
         in \<lparr>filename = segment_filename nfkd i t,
              blob = wav_header sr (length cut * 2) @ pcm_bytes cut,
              clip_text = t, start_time = Num a, end_time = Some (Num b),
              duration = Num (fl64 (fl64 b - fl64 a))\<rparr>))"

fun expected_clips :: "(jsstring \<Rightarrow> jsstring) \<Rightarrow> f32 list \<Rightarrow> nat \<Rightarrow> nat \<Rightarrow> segment list \<Rightarrow> clip list" where
  "expected_clips nfkd y sr i [] = []"
| "expected_clips nfkd y sr i (s # ss) =
     (if is_skipped (length y) sr s then [] else [expected_clip nfkd y sr i s]) @
     expected_clips nfkd y sr (i + 1) ss"

fun expected_log :: "nat \<Rightarrow> nat \<Rightarrow> nat \<Rightarrow> segment list \<Rightarrow> jsstring list" where
  "expected_log len sr i [] = []"
| "expected_log len sr i (s # ss) =
     (if is_skipped len sr s then [skip_message i] else []) @ expected_log len sr (i + 1) ss"

section \<open>The manifest in the words of the specification\<close>

text \<open>
  The entry of clip number \<open>n\<close> (counted from 1), as section 4.6 writes it, and the
  shape of a number with two decimal places: an optional minus sign, at least one digit,
  a point, two digits.
\<close>

definition manifest_text :: "(rat \<Rightarrow> jsstring) \<Rightarrow> nat \<Rightarrow> clip \<Rightarrow> jsstring" where
  "manifest_text big n f =
     js ''Segment '' @ show_nat n @ js '': '' @ filename f @ [10] @
     js ''  Text: '' @ clip_text f @ [10] @
     js ''  Start: '' @ toFixed big 2 (start_time f) @ js ''s'' @ [10] @
     js ''  End: '' @ toFixed big 2 (to_number (end_time f)) @ js ''s'' @ [10] @
     js ''  Duration: '' @ toFixed big 2 (duration f) @ js ''s'' @ [10, 10]"

definition two_decimals :: "jsstring \<Rightarrow> bool" where
  "two_decimals s =
     (let t = (if s \<noteq> [] \<and> hd s = ch CHR ''-'' then tl s else s); n = length t
      in 4 \<le> n \<and> list_all is_digit (take (n - 3) t) \<and> t ! (n - 3) = ch CHR ''.'' \<and>
         list_all is_digit (drop (n - 2) t))"

section \<open>The shape of a sanitized name\<close>

text \<open>
  The characters a sanitized name is made of, and the property that its only separators
  are single underscores.
\<close>

definition is_plain :: "nat \<Rightarrow> bool" where
  "is_plain c \<longleftrightarrow> is_word c \<or> c = ch CHR ''.''"

fun single_seps :: "jsstring \<Rightarrow> bool" where
  "single_seps [] = True"
| "single_seps [c] = (is_sep c \<longrightarrow> c = ch CHR ''_'')"
| "single_seps (c # d # cs) =
     ((is_sep c \<longrightarrow> c = ch CHR ''_'' \<and> \<not> is_sep d) \<and> single_seps (d # cs))"





section \<open>The Segment invariant\<close>

text \<open>
  The invariant \<open>end > start \<ge> 0\<close> of the data model, and what the parser and the
  synthesizer do guarantee: a start that is a non-negative number and, where there is an
  end, an end that is a non-negative number.
\<close>

definition segment_invariant :: "timed_entry \<Rightarrow> bool" where
  "segment_invariant e =
     (case seg_start e of
        Num a \<Rightarrow> (case seg_end e of Some (Num b) \<Rightarrow> 0 \<le> a \<and> a < b | _ \<Rightarrow> False)
      | NaN \<Rightarrow> False)"

definition nonneg :: "jsnum \<Rightarrow> bool" where
  "nonneg x = (case x of Num r \<Rightarrow> 0 \<le> r | NaN \<Rightarrow> False)"

definition nonneg_times :: "timed_entry \<Rightarrow> bool" where
  "nonneg_times e \<longleftrightarrow> nonneg (seg_start e) \<and> (case seg_end e of None \<Rightarrow> True | Some x \<Rightarrow> nonneg x)"

text \<open>A piece of a line fits an atom: its characters are of the class, their number is in range.\<close>

definition fits :: "atom \<Rightarrow> jsstring \<Rightarrow> bool" where
  "fits a p \<longleftrightarrow>
     list_all (cls_ok (a_cls a)) p \<and> a_lo a \<le> length p \<and>
     (case a_hi a of None \<Rightarrow> True | Some h \<Rightarrow> length p \<le> h)"

section \<open>Properties of the synthesizer\<close>

lemma length_synth_loop: "length (synth_loop es) = length es"
  by (induction es rule: synth_loop.induct) simp_all

lemma synth_loop_nth:
  "i < length es \<Longrightarrow>
   synth_loop es ! i =
     (es ! i)\<lparr>seg_end := Some (if Suc i < length es then seg_start (es ! Suc i)
                                 else js_add (seg_start (es ! i)) (Num 3))\<rparr>"
proof (induction es arbitrary: i rule: synth_loop.induct)
  case 1
  then show ?case by simp
next
  case (2 cur)
  then show ?case by simp
next
  case (3 cur nxt rest)
  show ?case
  proof (cases i)
    case 0
    then show ?thesis by simp
  next
    case (Suc j)
    with 3 show ?thesis by simp
  qed
qed

text \<open>
  Claim C5. When the first entry has no end, the synthesizer keeps every entry and gives
  each the start of the next entry as its end, and the last one its own start plus 3
  seconds; the three entries at 0, 5 and 9 become the segments 0 to 5, 5 to 9 and 9 to 12.
  When the first entry has an end, the sequence is returned unchanged.
\<close>

theorem synthesizer_rule:
  "(es \<noteq> [] \<and> seg_end (hd es) = None \<longrightarrow>
      length (synthesize es) = length es \<and>
      (\<forall>i < length es.
         synthesize es ! i =
           (es ! i)\<lparr>seg_end := Some (if i + 1 < length es then seg_start (es ! (i + 1))
                                      else js_add (seg_start (es ! i)) (Num 3))\<rparr>)) \<and>
   synthesize [\<lparr>seg_start = Num 0, seg_end = None, seg_text = js ''a''\<rparr>,
               \<lparr>seg_start = Num 5, seg_end = None, seg_text = js ''b''\<rparr>,
               \<lparr>seg_start = Num 9, seg_end = None, seg_text = js ''c''\<rparr>] =
     [\<lparr>seg_start = Num 0, seg_end = Some (Num 5), seg_text = js ''a''\<rparr>,
      \<lparr>seg_start = Num 5, seg_end = Some (Num 9), seg_text = js ''b''\<rparr>,
      \<lparr>seg_start = Num 9, seg_end = Some (Num 12), seg_text = js ''c''\<rparr>] \<and>
   (es \<noteq> [] \<and> seg_end (hd es) \<noteq> None \<longrightarrow> synthesize es = es)"
proof (intro conjI impI)
  assume a: "es \<noteq> [] \<and> seg_end (hd es) = None"
  then have s: "synthesize es = synth_loop es"
    by (cases es) (simp_all add: synthesize_def)
  show "length (synthesize es) = length es"
    by (simp add: s length_synth_loop)
  show "\<forall>i < length es.
         synthesize es ! i =
           (es ! i)\<lparr>seg_end := Some (if i + 1 < length es then seg_start (es ! (i + 1))
                                      else js_add (seg_start (es ! i)) (Num 3))\<rparr>"
    by (simp add: s synth_loop_nth)
next
  show "synthesize [\<lparr>seg_start = Num 0, seg_end = None, seg_text = js ''a''\<rparr>,
               \<lparr>seg_start = Num 5, seg_end = None, seg_text = js ''b''\<rparr>,
               \<lparr>seg_start = Num 9, seg_end = None, seg_text = js ''c''\<rparr>] =
     [\<lparr>seg_start = Num 0, seg_end = Some (Num 5), seg_text = js ''a''\<rparr>,
      \<lparr>seg_start = Num 5, seg_end = Some (Num 9), seg_text = js ''b''\<rparr>,
      \<lparr>seg_start = Num 9, seg_end = Some (Num 12), seg_text = js ''c''\<rparr>]"
    by (simp add: synthesize_def)
next
  assume "es \<noteq> [] \<and> seg_end (hd es) \<noteq> None"
  then show "synthesize es = es"
    by (cases es) (auto simp: synthesize_def)
qed

theorem synthesizer_rule_witness:
  "synthesize [\<lparr>seg_start = Num 2, seg_end = None, seg_text = js ''x''\<rparr>,
               \<lparr>seg_start = Num 7, seg_end = Some (Num 8), seg_text = js ''y''\<rparr>] ! 0 =
     \<lparr>seg_start = Num 2, seg_end = Some (Num 7), seg_text = js ''x''\<rparr> \<and>
   synthesize [\<lparr>seg_start = Num 2, seg_end = None, seg_text = js ''x''\<rparr>,
               \<lparr>seg_start = Num 7, seg_end = Some (Num 8), seg_text = js ''y''\<rparr>] ! 1 =
     \<lparr>seg_start = Num 7, seg_end = Some (Num 10), seg_text = js ''y''\<rparr> \<and>
   synthesize [\<lparr>seg_start = Num 4, seg_end = Some (Num 1), seg_text = js ''x''\<rparr>,
               \<lparr>seg_start = Num 7, seg_end = None, seg_text = js ''y''\<rparr>] =
     [\<lparr>seg_start = Num 4, seg_end = Some (Num 1), seg_text = js ''x''\<rparr>,
      \<lparr>seg_start = Num 7, seg_end = None, seg_text = js ''y''\<rparr>]"
proof -
  let ?es = "[\<lparr>seg_start = Num 2, seg_end = None, seg_text = js ''x''\<rparr>,
              \<lparr>seg_start = Num 7, seg_end = Some (Num 8), seg_text = js ''y''\<rparr>]"
  let ?fs = "[\<lparr>seg_start = Num 4, seg_end = Some (Num 1), seg_text = js ''x''\<rparr>,
              \<lparr>seg_start = Num 7, seg_end = None, seg_text = js ''y''\<rparr>]"
  have h1: "?es \<noteq> [] \<and> seg_end (hd ?es) = None" by simp
  have h2: "?fs \<noteq> [] \<and> seg_end (hd ?fs) \<noteq> None" by simp
  from synthesizer_rule [of ?es] h1
  have a: "\<forall>i < length ?es. synthesize ?es ! i =
           (?es ! i)\<lparr>seg_end := Some (if i + 1 < length ?es then seg_start (?es ! (i + 1))
                                      else js_add (seg_start (?es ! i)) (Num 3))\<rparr>"
    by blast
  from a have a0: "synthesize ?es ! 0 = \<lparr>seg_start = Num 2, seg_end = Some (Num 7), seg_text = js ''x''\<rparr>"
    by simp
  from a [rule_format, of 1] have a1: "synthesize ?es ! 1 = \<lparr>seg_start = Num 7, seg_end = Some (Num 10), seg_text = js ''y''\<rparr>"
    by simp
  from synthesizer_rule [of ?fs] h2 have b: "synthesize ?fs = ?fs" by blast
  from a0 a1 b show ?thesis by simp
qed

section \<open>Properties of the container encoder\<close>

lemma floor_rat_numeral_div [simp]:
  "\<lfloor>(numeral a / numeral b :: rat)\<rfloor> = numeral a div numeral b"
  by (metis floor_divide_of_int_eq of_int_numeral)

lemma length_le_bytes [simp]: "length (le_bytes n x) = n"
  by (induction n arbitrary: x) simp_all

lemma le_bytes_2: "le_bytes 2 x = [word_of_int x, word_of_int (x div 256)]"
  by (simp add: numeral_2_eq_2)

lemma length_write_bytes [simp]: "length (write_bytes v off bs) = length v"
  by (induction bs arbitrary: v off) simp_all

lemma write_bytes_append:
  "length bs \<le> length zs \<Longrightarrow>
   write_bytes (pre @ zs) (length pre) bs = pre @ bs @ drop (length bs) zs"
proof (induction bs arbitrary: pre zs)
  case Nil
  then show ?case by simp
next
  case (Cons b bs)
  then obtain z zs' where zs: "zs = z # zs'" by (cases zs) auto
  with Cons.prems have len: "length bs \<le> length zs'" by simp
  have "write_bytes ((pre @ zs)[length pre := b]) (Suc (length pre)) bs =
        write_bytes ((pre @ [b]) @ zs') (length (pre @ [b])) bs"
    by (simp add: zs)
  also have "\<dots> = (pre @ [b]) @ bs @ drop (length bs) zs'"
    by (rule Cons.IH [OF len])
  finally show ?case by (simp add: zs)
qed

lemma set_le_append:
  "n \<le> length zs \<Longrightarrow>
   set_le n (pre @ zs) (length pre) x = Some (pre @ le_bytes n x @ drop n zs)"
  by (simp add: set_le_def write_bytes_append)

lemma stored_value_eq: "to_int (scale (clamp1 x)) = stored_value x"
proof (cases x)
  case (Fin s)
  show ?thesis
  proof (cases "s < 0")
    case True
    then have "max (- 1) (min 1 s) < 0" by simp
    with True show ?thesis by (simp add: Fin scale_def Let_def)
  next
    case False
    then have "\<not> max (- 1) (min 1 s) < 0" by simp
    with False show ?thesis by (simp add: Fin scale_def Let_def)
  qed
qed (simp_all add: scale_def)

lemma trunc_range:
  fixes v :: rat
  assumes "- 32768 \<le> v" "v \<le> 32767"
  shows "- 32768 \<le> (if v < 0 then - \<lfloor>- v\<rfloor> else \<lfloor>v\<rfloor>) \<and>
         (if v < 0 then - \<lfloor>- v\<rfloor> else \<lfloor>v\<rfloor>) \<le> 32767"
proof (cases "v < 0")
  case True
  have "- v \<le> of_int 32768" using assms by simp
  then have "\<lfloor>- v\<rfloor> \<le> 32768" by (simp add: floor_le_iff)
  moreover have "0 \<le> \<lfloor>- v\<rfloor>" using True by simp
  moreover have "(if v < 0 then - \<lfloor>- v\<rfloor> else \<lfloor>v\<rfloor>) = - \<lfloor>- v\<rfloor>"
    using True by simp
  ultimately show ?thesis by linarith
next
  case False
  then have "0 \<le> \<lfloor>v\<rfloor>" by simp
  moreover have "\<lfloor>v\<rfloor> \<le> 32767" using assms by (simp add: floor_le_iff)
  moreover have "(if v < 0 then - \<lfloor>- v\<rfloor> else \<lfloor>v\<rfloor>) = \<lfloor>v\<rfloor>"
    using False by simp
  ultimately show ?thesis by linarith
qed

lemma stored_value_range: "- 32768 \<le> stored_value x \<and> stored_value x \<le> 32767"
proof (cases x)
  case (Fin s)
  define v where "v = max (- 1) (min 1 s) * (if s < 0 then 32768 else 32767)"
  have "- 32768 \<le> v \<and> v \<le> 32767"
  proof (cases "s < 0")
    case True
    then have "- 1 \<le> max (- 1) (min 1 s)" "max (- 1) (min 1 s) \<le> 0" by simp_all
    then show ?thesis using True by (simp add: v_def)
  next
    case False
    then have "0 \<le> max (- 1) (min 1 s)" "max (- 1) (min 1 s) \<le> 1" by simp_all
    then show ?thesis using False by (simp add: v_def)
  qed
  then have r: "- 32768 \<le> (if v < 0 then - \<lfloor>- v\<rfloor> else \<lfloor>v\<rfloor>) \<and>
         (if v < 0 then - \<lfloor>- v\<rfloor> else \<lfloor>v\<rfloor>) \<le> 32767"
    using trunc_range by blast
  have sv: "stored_value x = (if v < 0 then - \<lfloor>- v\<rfloor> else \<lfloor>v\<rfloor>)"
    unfolding Fin v_def stored_value.simps Let_def ..
  from r show ?thesis unfolding sv .
qed simp_all

lemma length_pcm_bytes [simp]: "length (pcm_bytes xs) = 2 * length xs"
  by (induction xs) (simp_all add: pcm_bytes_def)

lemma pcm_bytes_Cons: "pcm_bytes (x # xs) = le_bytes 2 (stored_value x) @ pcm_bytes xs"
  by (simp add: pcm_bytes_def)

lemma pcm_loop_append:
  "length zs = 2 * length xs \<Longrightarrow>
   pcm_loop xs (pre @ zs) (length pre) = Some (pre @ pcm_bytes xs)"
proof (induction xs arbitrary: pre zs)
  case Nil
  then show ?case by (simp add: pcm_bytes_def)
next
  case (Cons x xs)
  have s: "setInt16 (pre @ zs) (length pre) (scale (clamp1 x)) =
           Some (pre @ le_bytes 2 (stored_value x) @ drop 2 zs)"
    using Cons.prems by (simp add: setInt16_def set_le_append stored_value_eq)
  have l: "length (drop 2 zs) = 2 * length xs"
    using Cons.prems by simp
  have "pcm_loop xs ((pre @ le_bytes 2 (stored_value x)) @ drop 2 zs)
          (length (pre @ le_bytes 2 (stored_value x))) =
        Some ((pre @ le_bytes 2 (stored_value x)) @ pcm_bytes xs)"
    by (rule Cons.IH [OF l])
  then show ?case
    by (simp add: s pcm_bytes_Cons)
qed

lemma pcm_bytes_silence: "pcm_bytes (replicate n (Fin 0)) = replicate (2 * n) 0"
  by (induction n) (simp_all add: pcm_bytes_Cons le_bytes_2 pcm_bytes_def)

lemma floatTo16BitPCM_eq: "floatTo16BitPCM xs = Some (pcm_bytes xs)"
  using pcm_loop_append [of "replicate (length xs * 2) 0" xs "[]"]
  by (simp add: floatTo16BitPCM_def)

lemma s16_read_back:
  assumes "- 32768 \<le> v" "v \<le> 32767"
  shows "(let u = uint (word_of_int v :: byte) + 256 * uint (word_of_int (v div 256) :: byte)
          in if u < 32768 then u else u - 65536) = v"
proof -
  have "v mod 65536 = 256 * (v div 256 mod 256) + v mod 256"
    using zmod_zmult2_eq [of 256 v 256] by simp
  then have u: "uint (word_of_int v :: byte) + 256 * uint (word_of_int (v div 256) :: byte) =
           v mod 65536"
    by (simp add: uint_word_of_int take_bit_eq_mod)
  show ?thesis
  proof (cases "0 \<le> v")
    case True
    with assms have "v mod 65536 = v" by simp
    with assms u True show ?thesis by (simp add: Let_def)
  next
    case False
    have "(v + 65536) mod 65536 = v + 65536"
      using assms False by (intro mod_pos_pos_trivial) simp_all
    then have "v mod 65536 = v + 65536" by simp
    with assms u False show ?thesis by (simp add: Let_def)
  qed
qed

lemma pcm_bytes_nth:
  "i < length xs \<Longrightarrow>
   pcm_bytes xs ! (2 * i) = word_of_int (stored_value (xs ! i)) \<and>
   pcm_bytes xs ! (2 * i + 1) = word_of_int (stored_value (xs ! i) div 256)"
proof (induction xs arbitrary: i)
  case Nil
  then show ?case by simp
next
  case (Cons x xs)
  show ?case
  proof (cases i)
    case 0
    then show ?thesis by (simp add: le_bytes_2 pcm_bytes_Cons)
  next
    case (Suc j)
    with Cons.prems have j: "j < length xs" by simp
    from Cons.IH [OF j] show ?thesis by (simp add: Suc le_bytes_2 pcm_bytes_Cons)
  qed
qed

lemma getInt16_pcm_bytes:
  assumes "i < length xs"
  shows "getInt16 (pcm_bytes xs) (2 * i) = Some (stored_value (xs ! i))"
proof -
  have "2 * i + 2 \<le> length (pcm_bytes xs)"
    using assms by simp
  then show ?thesis
    using pcm_bytes_nth [OF assms] stored_value_range [of "xs ! i"]
      s16_read_back [of "stored_value (xs ! i)"]
    by (simp add: getInt16_def Let_def)
qed

lemma writeString_loop_append:
  "offset + i = length pre \<Longrightarrow> length cs \<le> length zs \<Longrightarrow>
   writeString_loop cs (pre @ zs) offset i = Some (pre @ str_bytes cs @ drop (length cs) zs)"
proof (induction cs arbitrary: pre zs i)
  case Nil
  then show ?case by (simp add: str_bytes_def)
next
  case (Cons c cs)
  let ?b = "word_of_int (int c) :: byte"
  have s: "setUint8 (pre @ zs) (offset + i) (int c) = Some ((pre @ [?b]) @ drop 1 zs)"
    using Cons.prems set_le_append [of 1 zs pre "int c"]
    by (simp add: setUint8_def)
  have l: "length cs \<le> length (drop 1 zs)" using Cons.prems by simp
  have o: "offset + (i + 1) = length (pre @ [?b])" using Cons.prems by simp
  have "writeString_loop cs ((pre @ [?b]) @ drop 1 zs) offset (i + 1) =
        Some ((pre @ [?b]) @ str_bytes cs @ drop (length cs) (drop 1 zs))"
    by (rule Cons.IH [OF o l])
  then have "writeString_loop (c # cs) (pre @ zs) offset i =
        Some ((pre @ [?b]) @ str_bytes cs @ drop (length cs) (drop 1 zs))"
    by (simp only: writeString_loop.simps s option.case)
  then show ?case
    by (simp add: str_bytes_def)
qed

lemma writeString_at:
  assumes "length p + length s \<le> n"
  shows "writeString s (writer_at n p) = Some (writer_at n (p @ str_bytes s))"
proof -
  have "writeString_loop s (p @ replicate (n - length p) 0) (length p) 0 =
        Some (p @ str_bytes s @ drop (length s) (replicate (n - length p) 0))"
    using assms by (intro writeString_loop_append) simp_all
  then show ?thesis
    using assms by (simp add: writeString_def writer_at_def str_bytes_def)
qed

lemma set_le_at:
  assumes "length p + k \<le> n"
  shows "set_le k (fst (writer_at n p)) (snd (writer_at n p)) x =
         Some (fst (writer_at n (p @ le_bytes k x)))"
  using assms set_le_append [of k "replicate (n - length p) 0" p x]
  by (simp add: writer_at_def)

lemma writeUint32_at:
  "length p + 4 \<le> n \<Longrightarrow> writeUint32 x (writer_at n p) = Some (writer_at n (p @ le_bytes 4 x))"
  using set_le_at [of p 4 n x] by (simp add: writeUint32_def setUint32_def) (simp add: writer_at_def)

lemma writeUint16_at:
  "length p + 2 \<le> n \<Longrightarrow> writeUint16 x (writer_at n p) = Some (writer_at n (p @ le_bytes 2 x))"
  using set_le_at [of p 2 n x] by (simp add: writeUint16_def setUint16_def) (simp add: writer_at_def)

lemma length_str_bytes [simp]: "length (str_bytes s) = length s"
  by (simp add: str_bytes_def)

lemma length_js [simp]: "length (js s) = length s"
  by (simp add: js_def)

lemma length_wav_header [simp]: "length (wav_header sr n) = 44"
  by (simp add: wav_header_def)

lemma s16_bytes:
  fixes a b :: byte
  defines "u \<equiv> uint a + 256 * uint b"
  shows "le_bytes 2 (if u < 32768 then u else u - 65536) = [a, b]"
proof -
  have a: "0 \<le> uint a" "uint a < 256" and b: "0 \<le> uint b" "uint b < 256"
    using uint_lt2p [of a] uint_lt2p [of b] by simp_all
  have u': "u - 65536 = uint a + 256 * (uint b - 256)"
    by (simp add: u_def)
  have k: "(uint a + 256 * k) mod 256 = uint a" "(uint a + 256 * k) div 256 = k" for k
    using a by simp_all
  have m2: "(u - 65536) mod 256 = uint a" and d2: "(u - 65536) div 256 = uint b - 256"
    unfolding u' by (rule k)+
  have m1: "u mod 256 = uint a" and d1: "u div 256 = uint b"
    using a by (simp_all add: u_def)
  note m = m1 m2 and d = d1 d2
  have "(word_of_int (if u < 32768 then u else u - 65536) :: byte) = a"
    by (rule word_uint_eqI) (simp add: uint_word_of_int take_bit_eq_mod m)
  moreover have "(word_of_int ((if u < 32768 then u else u - 65536) div 256) :: byte) = b"
    using b by (intro word_uint_eqI) (simp add: uint_word_of_int take_bit_eq_mod d)
  ultimately show ?thesis by (simp add: le_bytes_2)
qed

lemma copy_loop_copies:
  assumes h: "length hdr = 44" and p: "length pcm = dataLen" and e: "even dataLen"
  shows "even i \<Longrightarrow> i \<le> dataLen \<Longrightarrow>
         copy_loop pcm (hdr @ take i pcm @ replicate (dataLen - i) 0) dataLen i = Some (hdr @ pcm)"
proof (induction "dataLen - i" arbitrary: i rule: less_induct)
  case less
  show ?case
  proof (cases "i < dataLen")
    case False
    with less.prems p show ?thesis by (simp add: copy_loop.simps)
  next
    case True
    with less.prems e have i2: "i + 2 \<le> dataLen"
      by (metis Suc_leI add_2_eq_Suc' even_Suc le_neq_implies_less)
    define u where "u = uint (pcm ! i) + 256 * uint (pcm ! (i + 1))"
    define x where "x = (if u < 32768 then u else u - 65536)"
    have g: "getInt16 pcm i = Some x"
      using i2 p by (simp add: getInt16_def Let_def x_def u_def)
    have t: "take (Suc (Suc i)) pcm = take i pcm @ [pcm ! i, pcm ! Suc i]"
      using i2 p by (simp add: take_Suc_conv_app_nth)
    have lb: "le_bytes 2 x = [pcm ! i, pcm ! (i + 1)]"
      unfolding x_def u_def by (rule s16_bytes)
    have "set_le 2 ((hdr @ take i pcm) @ replicate (dataLen - i) 0) (length (hdr @ take i pcm)) x =
          Some ((hdr @ take i pcm) @ le_bytes 2 x @ drop 2 (replicate (dataLen - i) 0))"
      using i2 by (intro set_le_append) simp
    then have s: "setInt16 (hdr @ take i pcm @ replicate (dataLen - i) 0) (44 + i) (Num (of_int x)) =
          Some (hdr @ take (i + 2) pcm @ replicate (dataLen - (i + 2)) 0)"
      using i2 p h by (simp add: setInt16_def lb t)
    have "copy_loop pcm (hdr @ take (i + 2) pcm @ replicate (dataLen - (i + 2)) 0) dataLen (i + 2) =
          Some (hdr @ pcm)"
      using less.prems i2 by (intro less.hyps) simp_all
    then show ?thesis
      using True g s by (subst copy_loop.simps) simp
  qed
qed

lemma copy_loop_at:
  assumes "length hdr = 44"
  shows "copy_loop (pcm_bytes samples) (fst (writer_at (44 + length samples * 2) hdr))
           (length samples * 2) 0 = Some (hdr @ pcm_bytes samples)"
  using copy_loop_copies [of hdr "pcm_bytes samples" "length samples * 2" 0] assms
  by (simp add: writer_at_def)

lemma encodeWAV_eq:
  "encodeWAV samples sampleRate =
     Some (wav_header sampleRate (length samples * 2) @ pcm_bytes samples)"
proof -
  let ?n = "44 + length samples * 2"
  have w0: "(replicate ?n (0 :: byte), 0 :: nat) = writer_at ?n []"
    by (simp add: writer_at_def)
  show ?thesis
    unfolding encodeWAV_def Let_def w0
    by (simp add: writeString_at writeUint32_at writeUint16_at floatTo16BitPCM_eq
        copy_loop_at wav_header_def)
qed

lemma foldr_le_bytes:
  "foldr (\<lambda>b acc. uint b + 256 * acc) (le_bytes n x) 0 = x mod 256 ^ n"
proof (induction n arbitrary: x)
  case 0
  then show ?case by simp
next
  case (Suc n)
  have "x mod (256 * 256 ^ n) = 256 * (x div 256 mod 256 ^ n) + x mod 256"
    by (rule zmod_zmult2_eq) simp
  with Suc show ?case
    by (simp add: uint_word_of_int take_bit_eq_mod)
qed

lemma get_le_header:
  "get_le 4 (wav_header sr n @ d) 16 = 16"
  "get_le 2 (wav_header sr n @ d) 20 = 1"
  "get_le 2 (wav_header sr n @ d) 22 = 1"
  "get_le 2 (wav_header sr n @ d) 34 = 16"
  "get_le 4 (wav_header sr n @ d) 4 = (36 + int n) mod 4294967296"
  "get_le 4 (wav_header sr n @ d) 24 = int sr mod 4294967296"
  "get_le 4 (wav_header sr n @ d) 40 = int n mod 4294967296"
  "get_le 4 (wav_header sr n) 16 = 16"
  "get_le 2 (wav_header sr n) 20 = 1"
  "get_le 2 (wav_header sr n) 22 = 1"
  "get_le 2 (wav_header sr n) 34 = 16"
  "get_le 4 (wav_header sr n) 4 = (36 + int n) mod 4294967296"
  "get_le 4 (wav_header sr n) 24 = int sr mod 4294967296"
  "get_le 4 (wav_header sr n) 40 = int n mod 4294967296"
  by (simp_all add: get_le_def wav_header_def foldr_le_bytes)

lemma tags_header:
  "take 4 (wav_header sr n @ d) = str_bytes (js ''RIFF'')"
  "take 4 (drop 8 (wav_header sr n @ d)) = str_bytes (js ''WAVE'')"
  "take 4 (drop 12 (wav_header sr n @ d)) = str_bytes (js ''fmt '')"
  "take 4 (drop 36 (wav_header sr n @ d)) = str_bytes (js ''data'')"
  "take 4 (wav_header sr n) = str_bytes (js ''RIFF'')"
  "take 4 (drop 8 (wav_header sr n)) = str_bytes (js ''WAVE'')"
  "take 4 (drop 12 (wav_header sr n)) = str_bytes (js ''fmt '')"
  "take 4 (drop 36 (wav_header sr n)) = str_bytes (js ''data'')"
  by (simp_all add: wav_header_def)

lemma pcm_samples_pcm_bytes: "pcm_samples (pcm_bytes xs) = map stored_value xs"
proof (induction xs)
  case Nil
  then show ?case by (simp add: pcm_bytes_def)
next
  case (Cons x xs)
  have "(let u = uint (word_of_int (stored_value x) :: byte) +
                 256 * uint (word_of_int (stored_value x div 256) :: byte)
         in if u < 32768 then u else u - 65536) = stored_value x"
    using stored_value_range [of x] by (intro s16_read_back) simp_all
  with Cons show ?case
    by (simp add: pcm_bytes_Cons le_bytes_2)
qed

lemma decode_encode:
  assumes "length samples * 2 < 2 ^ 32" "sampleRate < 2 ^ 32"
  shows "decodeWAV (wav_header sampleRate (length samples * 2) @ pcm_bytes samples) =
         Some (sampleRate, map stored_value samples)"
proof -
  have "int (length samples * 2) mod 4294967296 = int (length samples * 2)"
       "int sampleRate mod 4294967296 = int sampleRate"
    using assms by simp_all
  then show ?thesis
    by (simp add: decodeWAV_def get_le_header tags_header pcm_samples_pcm_bytes)
qed

lemma stored_value_to_float:
  assumes "- 32768 \<le> v" "v \<le> 32767"
  shows "stored_value (to_float v) = (if 0 < v then v - 1 else v)"
proof (cases "0 < v")
  case True
  define c :: rat where "c = of_int v / 32768"
  have c: "0 < c" "c < 1" using True assms by (simp_all add: c_def)
  have "c * 32767 = of_int v - c" by (simp add: c_def)
  then have "of_int (v - 1) \<le> c * 32767" "c * 32767 < of_int (v - 1) + 1"
    using c by simp_all
  then have "\<lfloor>c * 32767\<rfloor> = v - 1" by (intro floor_unique)
  moreover have "max (- 1) (min 1 c) = c" "\<not> c < 0" "\<not> c * 32767 < 0"
    using c by simp_all
  ultimately show ?thesis
    using True by (simp add: to_float_def c_def [symmetric] Let_def)
next
  case False
  define c :: rat where "c = of_int v / 32768"
  have c: "- 1 \<le> c" "c \<le> 0" using False assms by (simp_all add: c_def)
  have m: "max (- 1) (min 1 c) = c" "max (- 1) c = c" using c by simp_all
  have v: "c * 32768 = of_int v" by (simp add: c_def)
  show ?thesis
  proof (cases "v = 0")
    case True
    then show ?thesis by (simp add: to_float_def)
  next
    case nz: False
    with False have "c < 0" by (simp add: c_def)
    then show ?thesis
      using False by (simp add: to_float_def c_def [symmetric] Let_def m v)
  qed
qed


lemma le_bytes_4:
  "le_bytes 4 x = [word_of_int x, word_of_int (x div 256), word_of_int (x div 256 div 256),
                   word_of_int (x div 256 div 256 div 256)]"
proof -
  have "(4 :: nat) = Suc (Suc (Suc (Suc 0)))" by simp
  then show ?thesis by (simp only: le_bytes.simps)
qed

text \<open>
  Claim C1, as amended. For every sample sequence the encoder writes two bytes per sample,
  and the 16-bit signed little-endian value at sample \<open>i\<close> is the clamped sample times
  32768 (negative samples) or 32767 (the others), truncated towards zero: the code hands
  the product to \<^verbatim>\<open>setInt16\<close>, which drops the fraction, and nothing rounds it to the
  nearest integer. An infinite sample is stored as the clamped bound, NaN as 0.
\<close>

theorem floatTo16BitPCM_truncates:
  "\<exists>out. floatTo16BitPCM samples = Some out \<and> length out = 2 * length samples \<and>
     (\<forall>i < length samples. getInt16 out (2 * i) = Some (stored_value (samples ! i)))"
  by (simp add: floatTo16BitPCM_eq getInt16_pcm_bytes)

theorem floatTo16BitPCM_truncates_witness:
  "\<exists>out. floatTo16BitPCM [Fin (1 / 4), Fin (- 1 / 3)] = Some out \<and>
     getInt16 out 0 = Some 8191 \<and> getInt16 out 2 = Some (- 10922)"
proof -
  from floatTo16BitPCM_truncates [of "[Fin (1 / 4), Fin (- 1 / 3)]"]
  obtain out where o: "floatTo16BitPCM [Fin (1 / 4), Fin (- 1 / 3)] = Some out"
    and g: "\<forall>i < length [Fin (1 / 4), Fin (- 1 / 3)].
              getInt16 out (2 * i) = Some (stored_value ([Fin (1 / 4), Fin (- 1 / 3)] ! i))"
    by blast
  from g [rule_format, of 0] have "getInt16 out 0 = Some 8191" by simp
  moreover from g [rule_format, of 1] have "getInt16 out 2 = Some (- 10922)" by simp
  ultimately show ?thesis using o by blast
qed

text \<open>
  Claim C1 as stated fails at the sample 0.25: the product is 8191.75, the encoder stores
  8191 (the bytes \<open>FF 1F\<close>), and rounding to the nearest integer gives 8192.
\<close>

theorem floatTo16BitPCM_round_counterexample:
  "floatTo16BitPCM [Fin (1 / 4)] = Some [255, 31] \<and> getInt16 [255, 31] 0 = Some 8191 \<and>
   rounded_value (1 / 4) = 8192"
  by (simp add: floatTo16BitPCM_eq pcm_bytes_def le_bytes_2 getInt16_def rounded_value_def
      round_def)

text \<open>
  Claim C2, as amended. When the data length and the sample rate fit their 32-bit header
  fields, decoding the container returns the sample rate and exactly the 16-bit values
  the encoder stored. Encoding the decoded samples again, each value \<open>v\<close> read back as
  the float \<open>v / 32768\<close>, reproduces every value that is not positive and lowers every
  positive value by one.
\<close>

theorem wav_round_trip:
  assumes "length samples * 2 < 2 ^ 32" "sampleRate < 2 ^ 32"
  shows "\<exists>w. encodeWAV samples sampleRate = Some w \<and>
           decodeWAV w = Some (sampleRate, map stored_value samples) \<and>
           floatTo16BitPCM (map to_float (map stored_value samples)) =
             Some (concat (map (\<lambda>x. le_bytes 2 (if 0 < stored_value x then stored_value x - 1
                                                else stored_value x)) samples))"
proof -
  have h: "stored_value (to_float (stored_value x)) =
        (if 0 < stored_value x then stored_value x - 1 else stored_value x)" for x
    using stored_value_range [of x] by (intro stored_value_to_float) simp_all
  have "floatTo16BitPCM (map to_float (map stored_value samples)) =
             Some (concat (map (\<lambda>x. le_bytes 2 (if 0 < stored_value x then stored_value x - 1
                                                else stored_value x)) samples))"
    by (simp add: floatTo16BitPCM_eq pcm_bytes_def comp_def h)
  then show ?thesis
    using decode_encode [OF assms] by (simp add: encodeWAV_eq)
qed

theorem wav_round_trip_witness:
  "\<exists>w. encodeWAV [Fin (1 / 2), Fin (- 1 / 2)] 8000 = Some w \<and>
       decodeWAV w = Some (8000, [16383, - 16384]) \<and>
       floatTo16BitPCM (map to_float [16383, - 16384]) =
         Some (le_bytes 2 16382 @ le_bytes 2 (- 16384))"
proof -
  have "length [Fin (1 / 2), Fin (- 1 / 2)] * 2 < (2 :: nat) ^ 32" "(8000 :: nat) < 2 ^ 32"
    by simp_all
  from wav_round_trip [OF this] show ?thesis by simp
qed

text \<open>
  Claim C2 as stated fails at the single sample 1.0: the container holds 32767, the
  decoder returns 32767, and encoding 32767 / 32768 again stores 32766 (the bytes
  \<open>FE 7F\<close> in place of \<open>FF 7F\<close>). A decoder that divides by 32767 instead does not
  save the property: the stored value -32767 (bytes \<open>01 80\<close>) comes back as -1.0 and is
  stored again as -32768 (bytes \<open>00 80\<close>).
\<close>

theorem wav_round_trip_counterexample:
  "encodeWAV [Fin 1] 16000 =
     Some [82, 73, 70, 70, 38, 0, 0, 0, 87, 65, 86, 69, 102, 109, 116, 32, 16, 0, 0, 0, 1, 0, 1, 0,
           128, 62, 0, 0, 0, 125, 0, 0, 2, 0, 16, 0, 100, 97, 116, 97, 2, 0, 0, 0, 255, 127] \<and>
   decodeWAV [82, 73, 70, 70, 38, 0, 0, 0, 87, 65, 86, 69, 102, 109, 116, 32, 16, 0, 0, 0, 1, 0, 1, 0,
           128, 62, 0, 0, 0, 125, 0, 0, 2, 0, 16, 0, 100, 97, 116, 97, 2, 0, 0, 0, 255, 127] =
     Some (16000, [32767]) \<and>
   floatTo16BitPCM [to_float 32767] = Some [254, 127] \<and>
   floatTo16BitPCM [Fin 1] = Some [255, 127] \<and>
   floatTo16BitPCM [Fin (- 32767 / 32768)] = Some [1, 128] \<and>
   getInt16 [1, 128] 0 = Some (- 32767) \<and>
   floatTo16BitPCM [to_float_32767 (- 32767)] = Some [0, 128]"
proof -
  have e: "wav_header 16000 2 @ pcm_bytes [Fin 1] =
        [82, 73, 70, 70, 38, 0, 0, 0, 87, 65, 86, 69, 102, 109, 116, 32, 16, 0, 0, 0, 1, 0, 1, 0,
         128, 62, 0, 0, 0, 125, 0, 0, 2, 0, 16, 0, 100, 97, 116, 97, 2, 0, 0, 0, 255, 127]"
    by (simp add: wav_header_def pcm_bytes_def le_bytes_2 le_bytes_4 str_bytes_def js_def)
  have d: "decodeWAV (wav_header 16000 (length [Fin 1] * 2) @ pcm_bytes [Fin 1]) =
           Some (16000, map stored_value [Fin 1])"
    by (rule decode_encode) simp_all
  have r: "floatTo16BitPCM [to_float 32767] = Some [254, 127]"
    by (simp add: floatTo16BitPCM_eq pcm_bytes_def le_bytes_2 to_float_def)
  have o: "floatTo16BitPCM [Fin 1] = Some [255, 127]"
    by (simp add: floatTo16BitPCM_eq pcm_bytes_def le_bytes_2)
  from d have d': "decodeWAV (wav_header 16000 2 @ pcm_bytes [Fin 1]) = Some (16000, [32767])"
    by simp
  have s: "floatTo16BitPCM [Fin (- 32767 / 32768)] = Some [1, 128]"
          "getInt16 [1, 128] 0 = Some (- 32767)"
          "floatTo16BitPCM [to_float_32767 (- 32767)] = Some [0, 128]"
    by (simp_all add: floatTo16BitPCM_eq pcm_bytes_def le_bytes_2 to_float_32767_def getInt16_def)
  show ?thesis
    using r o d' s by (simp add: encodeWAV_eq e)
qed

section \<open>Properties of rounding to binary64\<close>

lemma binade_up_props:
  "1 \<le> x \<Longrightarrow> binade_up x \<le> x \<and> x < 2 * binade_up x \<and> (\<exists>k :: int. binade_up x = 2 powi k)"
proof (induction x rule: binade_up.induct)
  case (1 x)
  show ?case
  proof (cases "x < 2")
    case True
    have "binade_up x = 1" using True by (subst binade_up.simps) simp
    moreover have "(1 :: rat) = 2 powi 0" by simp
    ultimately show ?thesis using True 1(2) by (metis mult.right_neutral)
  next
    case False
    then have "1 \<le> x / 2" by simp
    with 1(1) [OF False] obtain k :: int where
      h: "binade_up (x / 2) \<le> x / 2" "x / 2 < 2 * binade_up (x / 2)" "binade_up (x / 2) = 2 powi k"
      by blast
    have e: "binade_up x = 2 * binade_up (x / 2)"
      using False by (subst binade_up.simps) simp
    have "binade_up x = 2 powi (k + 1)" by (simp add: e h(3) power_int_add_1)
    moreover have "binade_up x \<le> x" "x < 2 * binade_up x"
      using h(1,2) by (simp_all add: e)
    ultimately show ?thesis by blast
  qed
qed

lemma binade_down_props:
  "0 < x \<Longrightarrow> x < 1 \<Longrightarrow>
   binade_down x \<le> x \<and> x < 2 * binade_down x \<and> (\<exists>k :: int. binade_down x = 2 powi k)"
proof (induction x rule: binade_down.induct)
  case (1 x)
  have e: "binade_down x = binade_down (2 * x) / 2"
    using 1(2,3) by (subst binade_down.simps) simp
  show ?case
  proof (cases "1 \<le> 2 * x")
    case True
    then have "binade_down (2 * x) = 1" by (subst binade_down.simps) simp
    then have b: "binade_down x = 1 / 2" by (simp add: e)
    have "binade_down x = 2 powi (- 1)" by (simp add: b power_int_minus)
    moreover have "binade_down x \<le> x" "x < 2 * binade_down x"
      using True 1(3) by (simp_all add: b)
    ultimately show ?thesis by blast
  next
    case False
    have c: "\<not> (x \<le> 0 \<or> 1 \<le> x)" using 1(2,3) by simp
    have "0 < 2 * x" "2 * x < 1" using 1(2) False by simp_all
    with 1(1) [OF c] obtain k :: int where
      h: "binade_down (2 * x) \<le> 2 * x" "2 * x < 2 * binade_down (2 * x)"
         "binade_down (2 * x) = 2 powi k"
      by blast
    have "binade_down x = 2 powi (k - 1)" by (simp add: e h(3) power_int_diff)
    moreover have "binade_down x \<le> x" "x < 2 * binade_down x"
      using h(1,2) by (simp_all add: e)
    ultimately show ?thesis by blast
  qed
qed

lemma binade_props:
  "0 < x \<Longrightarrow> binade x \<le> x \<and> x < 2 * binade x \<and> (\<exists>k :: int. binade x = 2 powi k)"
  using binade_up_props [of x] binade_down_props [of x] by (simp add: binade_def)

lemma pow2_gap: "(2 :: rat) powi j < 2 powi k \<Longrightarrow> 2 * (2 :: rat) powi j \<le> 2 powi k"
proof -
  assume l: "(2 :: rat) powi j < 2 powi k"
  have "j < k"
  proof (rule ccontr)
    assume "\<not> j < k"
    then have "(2 :: rat) powi k \<le> 2 powi j" by (intro power_int_increasing) simp_all
    with l show False by simp
  qed
  then have "(2 :: rat) powi (j + 1) \<le> 2 powi k" by (intro power_int_increasing) simp_all
  then show ?thesis by (simp add: power_int_add_1)
qed

lemma quantum_props:
  assumes "0 < x"
  defines "b \<equiv> quantum x * 2 ^ 52"
  shows "\<exists>k :: int. b = 2 powi k" "x < 2 * b" "b \<le> x \<or> b = 1 / 2 ^ 1022" "0 < quantum x"
proof -
  have b: "b = max (binade x) (1 / 2 ^ 1022)" by (simp add: b_def quantum_def)
  from binade_props [OF assms(1)] obtain k :: int where
    h: "binade x \<le> x" "x < 2 * binade x" "binade x = 2 powi k" by blast
  have c: "(1 / 2 ^ 1022 :: rat) = 2 powi (- 1022)"
    by (simp add: power_int_minus_divide)
  show "\<exists>k :: int. b = 2 powi k"
    unfolding b using h(3) c by (metis max_def)
  show "x < 2 * b" using h(2) by (simp add: b max_def)
  show "b \<le> x \<or> b = 1 / 2 ^ 1022" using h(1) by (auto simp: b max_def)
  have "0 < b" unfolding b by (simp add: max_def h(3)) 
  then show "0 < quantum x" by (simp add: b_def zero_less_mult_iff)
qed

lemma round_even_cases: "round_even t = \<lfloor>t\<rfloor> \<or> round_even t = \<lfloor>t\<rfloor> + 1"
  by (simp add: round_even_def Let_def)

lemma round_even_of_int [simp]: "round_even (of_int n) = n"
  by (simp add: round_even_def)

lemma round_even_mono: "t \<le> u \<Longrightarrow> round_even t \<le> round_even u"
proof -
  assume tu: "t \<le> u"
  then have fl: "\<lfloor>t\<rfloor> \<le> \<lfloor>u\<rfloor>" by (rule floor_mono)
  show ?thesis
  proof (cases "\<lfloor>t\<rfloor> = \<lfloor>u\<rfloor>")
    case True
    with tu have "t - of_int \<lfloor>t\<rfloor> \<le> u - of_int \<lfloor>u\<rfloor>" by simp
    then show ?thesis
      unfolding round_even_def Let_def True by (auto simp: True)
  next
    case False
    with fl have "\<lfloor>t\<rfloor> + 1 \<le> \<lfloor>u\<rfloor>" by simp
    with round_even_cases [of t] round_even_cases [of u] show ?thesis by linarith
  qed
qed

lemma fl64_pos: "0 < x \<Longrightarrow> fl64 x = of_int (round_even (x / quantum x)) * quantum x"
  by (simp add: fl64_def)

lemma fl64_minus: "fl64 (- x) = - fl64 x"
  by (simp add: fl64_def)

lemma fl64_zero [simp]: "fl64 0 = 0"
  by (simp add: fl64_def)

lemma fl64_mono_pos:
  assumes "0 < x" "x \<le> y"
  shows "fl64 x \<le> fl64 y"
proof -
  have y: "0 < y" using assms by simp
  define bx where "bx = quantum x * 2 ^ 52"
  define by' where "by' = quantum y * 2 ^ 52"
  note px = quantum_props [OF assms(1), folded bx_def]
  note py = quantum_props [OF y, folded by'_def]
  have qx: "quantum x = bx / 2 ^ 52" and qy: "quantum y = by' / 2 ^ 52"
    by (simp_all add: bx_def by'_def)
  have bpos: "0 < bx" "0 < by'" using px(4) py(4) by (simp_all add: bx_def by'_def)
  have upper: "fl64 x \<le> 2 * bx"
  proof -
    have "x / quantum x \<le> of_int (2 ^ 53)"
      using px(2) bpos by (simp add: qx field_simps)
    then have "round_even (x / quantum x) \<le> 2 ^ 53"
      using round_even_mono round_even_of_int by metis
    then have "of_int (round_even (x / quantum x)) * quantum x \<le> of_int (2 ^ 53) * quantum x"
      using px(4) by (intro mult_right_mono) simp_all
    then show ?thesis by (simp add: fl64_pos [OF assms(1)] qx)
  qed
  have lower: "by' \<le> y \<Longrightarrow> by' \<le> fl64 y"
  proof -
    assume "by' \<le> y"
    then have "of_int (2 ^ 52) \<le> y / quantum y"
      using bpos by (simp add: qy field_simps)
    then have "2 ^ 52 \<le> round_even (y / quantum y)"
      using round_even_mono round_even_of_int by metis
    then have "of_int (2 ^ 52) * quantum y \<le> of_int (round_even (y / quantum y)) * quantum y"
      using py(4) by (intro mult_right_mono) simp_all
    then show ?thesis by (simp add: fl64_pos [OF y] qy)
  qed
  consider "bx = by'" | "bx < by'" | "by' < bx" by linarith
  then show ?thesis
  proof cases
    case 1
    then have q: "quantum x = quantum y" by (simp add: qx qy)
    have "x / quantum y \<le> y / quantum y"
      using assms(2) py(4) by (simp add: divide_right_mono)
    then have "round_even (x / quantum y) \<le> round_even (y / quantum y)"
      by (rule round_even_mono)
    then have "of_int (round_even (x / quantum y)) * quantum y \<le>
               of_int (round_even (y / quantum y)) * quantum y"
      using py(4) by (intro mult_right_mono) simp_all
    then show ?thesis by (simp add: fl64_pos [OF assms(1)] fl64_pos [OF y] q)
  next
    case 2
    with px(1) py(1) have g: "2 * bx \<le> by'" using pow2_gap by blast
    have "by' \<noteq> 1 / 2 ^ 1022"
    proof
      assume "by' = 1 / 2 ^ 1022"
      moreover have "1 / 2 ^ 1022 \<le> bx" by (simp add: bx_def quantum_def)
      ultimately show False using 2 by simp
    qed
    with py(3) have "by' \<le> y" by simp
    with lower upper g show ?thesis by linarith
  next
    case 3
    with px(1) py(1) have g: "2 * by' \<le> bx" using pow2_gap by blast
    have "bx \<noteq> 1 / 2 ^ 1022"
    proof
      assume "bx = 1 / 2 ^ 1022"
      moreover have "1 / 2 ^ 1022 \<le> by'" by (simp add: by'_def quantum_def)
      ultimately show False using 3 by simp
    qed
    with px(3) have "bx \<le> x" by simp
    with g py(2) assms(2) show ?thesis by linarith
  qed
qed

lemma fl64_nonneg: "0 \<le> x \<Longrightarrow> 0 \<le> fl64 x"
proof (cases "x = 0")
  case False
  assume "0 \<le> x"
  with False have x: "0 < x" by simp
  have "0 \<le> x / quantum x" using x quantum_props(4) [OF x] by simp
  then have "round_even 0 \<le> round_even (x / quantum x)" by (rule round_even_mono)
  then have "0 \<le> round_even (x / quantum x)" by (simp add: round_even_def)
  then show ?thesis using quantum_props(4) [OF x] by (simp add: fl64_pos [OF x])
qed simp

lemma fl64_mono: "x \<le> y \<Longrightarrow> fl64 x \<le> fl64 y"
proof -
  assume xy: "x \<le> y"
  consider "0 < x" | "x \<le> 0" "0 \<le> y" | "y < 0" using xy by linarith
  then show ?thesis
  proof cases
    case 1
    then show ?thesis using xy by (rule fl64_mono_pos)
  next
    case 2
    have "0 \<le> fl64 (- x)" using 2(1) by (intro fl64_nonneg) simp
    then have "fl64 x \<le> 0" by (simp add: fl64_minus)
    moreover have "0 \<le> fl64 y" using 2(2) by (rule fl64_nonneg)
    ultimately show ?thesis by simp
  next
    case 3
    then have "fl64 (- y) \<le> fl64 (- x)" using xy by (intro fl64_mono_pos) simp_all
    then show ?thesis by (simp add: fl64_minus)
  qed
qed

text \<open>
  Every value of \<open>fl64\<close> is a fixed point of it: rounding a binary64 value changes
  nothing.
\<close>

lemma binade_unique:
  assumes "0 < y" "p = 2 powi k" "p \<le> y" "y < 2 * p"
  shows "binade y = p"
proof -
  from binade_props [OF assms(1)] obtain j :: int where
    h: "binade y \<le> y" "y < 2 * binade y" "binade y = 2 powi j" by blast
  consider "binade y = p" | "binade y < p" | "p < binade y" by linarith
  then show ?thesis
  proof cases
    case 1
    then show ?thesis .
  next
    case 2
    then have "(2 :: rat) powi j < 2 powi k" by (simp only: h(3) assms(2))
    then have "2 * (2 :: rat) powi j \<le> 2 powi k" by (rule pow2_gap)
    then have "2 * binade y \<le> p" by (simp only: h(3) assms(2))
    with h(2) assms(3) show ?thesis by linarith
  next
    case 3
    then have "(2 :: rat) powi k < 2 powi j" by (simp only: h(3) assms(2))
    then have "2 * (2 :: rat) powi k \<le> 2 powi j" by (rule pow2_gap)
    then have "2 * p \<le> binade y" by (simp only: h(3) assms(2))
    with h(1) assms(4) show ?thesis by linarith
  qed
qed

lemma fl64_idem_pos:
  assumes "0 < x"
  shows "fl64 (fl64 x) = fl64 x"
proof -
  define c :: rat where "c = 1 / 2 ^ 1022"
  define m :: rat where "m = 2 ^ 52"
  define q where "q = quantum x"
  define b where "b = q * m"
  define n where "n = round_even (x / q)"
  define y where "y = of_int n * q"
  have m: "0 < m" "m = of_int (2 ^ 52)" "2 * m = of_int (2 ^ 53)" by (simp_all add: m_def)
  have c: "0 < c" by (simp add: c_def)
  have quantum: "quantum z = max (binade z) c / m" for z
    by (simp add: quantum_def c_def m_def)
  note p0 = quantum_props [OF assms, folded q_def m_def c_def]
  have p: "\<exists>k :: int. b = 2 powi k" "x < 2 * b" "b \<le> x \<or> b = c" "0 < q"
    using p0 by (simp_all only: b_def)
  have q: "q = b / m" using m(1) by (simp add: b_def)
  have bc: "c \<le> b" using m(1) by (simp add: b_def q_def quantum)
  have b: "0 < b" using c bc by linarith
  have y: "fl64 x = y" by (simp add: fl64_pos [OF assms] y_def n_def q_def)
  have xq: "x / q = x / b * m" using m(1) by (simp add: q)
  have n0: "0 \<le> n"
  proof -
    have "0 \<le> x / q" using assms p(4) by simp
    then have "round_even 0 \<le> round_even (x / q)" by (rule round_even_mono)
    then show ?thesis by (simp add: n_def round_even_def)
  qed
  show ?thesis
  proof (cases "n = 0")
    case True
    then show ?thesis by (simp add: y y_def)
  next
    case False
    with n0 have n: "0 < n" by simp
    then have ypos: "0 < y" using p(4) by (simp add: y_def)
    have nle: "n \<le> 2 ^ 53"
    proof -
      have "x / b < 2" using p(2) b by (simp add: pos_divide_less_eq)
      then have "x / b * m < 2 * m" using m(1) by (simp only: mult_less_cancel_right_pos)
      then have "x / q \<le> 2 * m" by (simp only: xq)
      then have "x / q \<le> of_int (2 ^ 53)" by (simp only: m(3))
      then have "round_even (x / q) \<le> round_even (of_int (2 ^ 53))" by (rule round_even_mono)
      then show ?thesis by (simp only: n_def round_even_of_int)
    qed
    have same: "quantum y = q \<Longrightarrow> fl64 y = y"
    proof -
      assume e: "quantum y = q"
      have d: "y / q = of_int n" using p(4) by (simp add: y_def)
      have "fl64 y = of_int (round_even (y / q)) * q" by (simp only: fl64_pos [OF ypos] e)
      also have "\<dots> = of_int n * q" by (simp only: d round_even_of_int)
      finally show ?thesis by (simp only: y_def)
    qed
    have "fl64 y = y"
    proof (cases "b \<le> x")
      case True
      have "1 \<le> x / b" using True b by (simp add: pos_le_divide_eq)
      then have "1 * m \<le> x / b * m" using m(1) by (simp only: mult_le_cancel_right_pos)
      then have "m \<le> x / q" by (simp only: xq mult_1)
      then have "of_int (2 ^ 52) \<le> x / q" by (simp only: m(2) [symmetric])
      then have "round_even (of_int (2 ^ 52)) \<le> round_even (x / q)" by (rule round_even_mono)
      then have nge: "2 ^ 52 \<le> n" by (simp only: n_def round_even_of_int)
      then have "m \<le> of_int n" unfolding m(2) by (simp only: of_int_le_iff)
      then have "m * q \<le> of_int n * q" using p(4) by (intro mult_right_mono) simp_all
      then have bley: "b \<le> y" by (simp add: y_def b_def mult.commute)
      from p(1) obtain k :: int where k: "b = 2 powi k" by blast
      show ?thesis
      proof (cases "n = 2 ^ 53")
        case True
        then have "of_int n = 2 * m" by (simp only: m(3))
        then have y2: "y = 2 * b" by (simp add: y_def b_def)
        have "2 * b = 2 powi (k + 1)" by (simp add: k power_int_add_1)
        then have "binade y = 2 * b" using ypos b by (intro binade_unique [of y _ "k + 1"]) (simp_all add: y2)
        then have "quantum y = 2 * q" using bc b by (simp add: quantum q max_def)
        moreover have "y / (2 * q) = m" using b m(1) by (simp add: y2 q)
        then have "y / (2 * q) = of_int (2 ^ 52)" by (simp only: m(2) [symmetric])
        ultimately have "fl64 y = of_int (2 ^ 52) * (2 * q)"
          by (simp only: fl64_pos [OF ypos] round_even_of_int)
        also have "\<dots> = m * (2 * q)" by (simp only: m(2) [symmetric])
        also have "\<dots> = y" using m(1) by (simp add: y2 q)
        finally show ?thesis .
      next
        case False
        with nle have "n < 2 ^ 53" by simp
        then have "of_int n < 2 * m" unfolding m(3) by (simp only: of_int_less_iff)
        then have "of_int n * q < 2 * m * q" using p(4) by (simp only: mult_less_cancel_right_pos)
        then have "y < 2 * b" by (simp add: y_def b_def mult.commute mult.left_commute)
        with bley k ypos have "binade y = b" by (intro binade_unique [of y _ k])
        then have "quantum y = q" using bc by (simp add: quantum q max_def)
        then show ?thesis by (rule same)
      qed
    next
      case False
      with p(3) have bc': "b = c" and xb: "x < b" by simp_all
      have "x / b \<le> 1" using xb b by (simp add: pos_divide_le_eq)
      then have "x / b * m \<le> 1 * m" using m(1) by (simp only: mult_le_cancel_right_pos)
      then have "x / q \<le> m" by (simp only: xq mult_1)
      then have "x / q \<le> of_int (2 ^ 52)" by (simp only: m(2) [symmetric])
      then have "round_even (x / q) \<le> round_even (of_int (2 ^ 52))" by (rule round_even_mono)
      then have "n \<le> 2 ^ 52" by (simp only: n_def round_even_of_int)
      then have "of_int n \<le> m" unfolding m(2) by (simp only: of_int_le_iff)
      then have "of_int n * q \<le> m * q" using p(4) by (intro mult_right_mono) simp_all
      then have "y \<le> c" by (simp add: y_def bc' [symmetric] b_def mult.commute)
      moreover have "binade y \<le> y" using binade_props [OF ypos] by simp
      ultimately have "quantum y = c / m" by (simp add: quantum max_def)
      then have "quantum y = q" by (simp add: q bc')
      then show ?thesis by (rule same)
    qed
    then show ?thesis by (simp only: y)
  qed
qed

lemma fl64_idem: "fl64 (fl64 x) = fl64 x"
proof -
  consider "0 < x" | "x = 0" | "x < 0" by linarith
  then show ?thesis
  proof cases
    case 1
    then show ?thesis by (rule fl64_idem_pos)
  next
    case 2
    then show ?thesis by simp
  next
    case 3
    then have "fl64 (fl64 (- x)) = fl64 (- x)" by (intro fl64_idem_pos) simp
    then show ?thesis by (simp add: fl64_minus)
  qed
qed

lemmas fl64_eval = fl64_def quantum_def binade_def binade_up.simps binade_down.simps round_even_def

section \<open>Properties of the segment extractor\<close>

lemma slice_in_range:
  assumes "0 \<le> s" "s < e" "e \<le> int (length y)"
  shows "slice y (Num (of_int s)) (Num (of_int e)) = take (nat e - nat s) (drop (nat s) y)"
proof -
  have "slice_index (length y) (Num (of_int s)) = nat s"
       "slice_index (length y) (Num (of_int e)) = nat e"
    using assms by (simp_all add: slice_index_def Let_def min_def)
  then show ?thesis by (simp add: slice_def Let_def)
qed

lemma start_index_num:
  "js_max (Num 0) (js_floor (js_mul64 (Num a) (Num (of_nat sr)))) = Num (of_int (startIndex sr a))"
  by (simp add: startIndex_def max_def)

lemma end_index_num:
  "js_min (Num (of_nat len)) (js_floor (js_mul64 (Num b) (Num (of_nat sr)))) =
   Num (of_int (endIndex len sr b))"
  by (simp add: endIndex_def min_def)

lemma as_entry_sel [simp]:
  "seg_start (as_entry (a, b, t)) = Num a"
  "seg_end (as_entry (a, b, t)) = Some (Num b)"
  "seg_text (as_entry (a, b, t)) = t"
  by (simp_all add: as_entry_def)

lemma extract_loop_eq:
  "extract_loop nfkd y sr (map as_entry segs) i (out, logged) =
     Some (out @ expected_clips nfkd y sr i segs, logged @ expected_log (length y) sr i segs)"
proof (induction segs arbitrary: i out logged)
  case Nil
  then show ?case by simp
next
  case (Cons s ss)
  obtain a b t where s: "s = (a, b, t)" by (cases s) auto
  let ?si = "startIndex sr a" and ?ei = "endIndex (length y) sr b"
  show ?case
  proof (cases "?ei \<le> ?si")
    case True
    then show ?thesis
      by (simp add: s start_index_num end_index_num is_skipped_def Cons.IH
          del: js_max.simps js_min.simps js_floor.simps js_mul64.simps)
  next
    case False
    have si: "0 \<le> ?si" by (simp add: startIndex_def)
    have ei: "?ei \<le> int (length y)" by (simp add: endIndex_def)
    have sl: "slice y (Num (of_int ?si)) (Num (of_int ?ei)) = take (nat ?ei - nat ?si) (drop (nat ?si) y)"
      using si ei False by (intro slice_in_range) simp_all
    show ?thesis
      using False
      by (simp add: s start_index_num end_index_num is_skipped_def Cons.IH sl
          encodeWAV_eq expected_clip_def Let_def
          del: js_max.simps js_min.simps js_floor.simps js_mul64.simps)
  qed
qed


lemma end_le_start_skipped: "b \<le> a \<Longrightarrow> is_skipped len sr (a, b, t)"
proof -
  assume "b \<le> a"
  then have "fl64 b \<le> fl64 a"
    by (rule fl64_mono)
  moreover have "0 \<le> fl64 (of_nat sr)"
    by (rule fl64_nonneg) simp
  ultimately have "fl64 b * fl64 (of_nat sr) \<le> fl64 a * fl64 (of_nat sr)"
    by (rule mult_right_mono)
  then have "fl64 (fl64 b * fl64 (of_nat sr)) \<le> fl64 (fl64 a * fl64 (of_nat sr))"
    by (rule fl64_mono)
  then have "\<lfloor>fl64 (fl64 b * fl64 (of_nat sr))\<rfloor> \<le> \<lfloor>fl64 (fl64 a * fl64 (of_nat sr))\<rfloor>"
    by (rule floor_mono)
  then show ?thesis
    by (simp add: is_skipped_def startIndex_def endIndex_def)
qed

text \<open>
  The rounding decides the indices. The product of the binary64 values nearest to 0.28
  and 0.29 with 100 is below 29 in both cases, so that segment is skipped, where the
  exact product of 0.29 and 100 is 29; and the product of the binary64 value nearest to
  0.7 with 10 rounds to 7, where the exact product is below 7.
\<close>

lemma rounded_product_examples:
  "startIndex 100 (28 / 100) = 28"
  "endIndex 30 100 (29 / 100) = 28"
  "\<lfloor>(29 / 100 :: rat) * of_nat 100\<rfloor> = 29"
  "startIndex 10 (fl64 (7 / 10)) = 7"
  "\<lfloor>fl64 (7 / 10) * of_nat 10\<rfloor> = 6"
proof -
  have a: "fl64 100 = 100" "fl64 10 = 10" by (simp_all add: fl64_eval)
  show "startIndex 100 (28 / 100) = 28"
    unfolding startIndex_def by (simp add: a) (simp add: fl64_eval)
  show "endIndex 30 100 (29 / 100) = 28"
    unfolding endIndex_def by (simp add: a) (simp add: fl64_eval)
  show "\<lfloor>(29 / 100 :: rat) * of_nat 100\<rfloor> = 29" by simp
  show "startIndex 10 (fl64 (7 / 10)) = 7"
    unfolding startIndex_def by (simp add: a fl64_idem) (simp add: fl64_eval)
  show "\<lfloor>fl64 (7 / 10) * of_nat 10\<rfloor> = 6" by (simp add: fl64_eval)
qed

lemma rounded_product_skipped:
  "extractSegments nfkd (replicate 30 (Fin 0)) 100 (map as_entry [(28 / 100, 29 / 100, t)]) =
     Some ([], [skip_message 0])"
proof -
  have "is_skipped (length (replicate 30 (Fin 0))) 100 (28 / 100, 29 / 100, t)"
    using rounded_product_examples(1,2) by (simp add: is_skipped_def)
  then show ?thesis
    unfolding extractSegments_def extract_loop_eq by simp
qed

text \<open>
  Claim C7. For every sample buffer, sample rate and sequence of segments with a numeric
  start and end, extraction returns (nothing is thrown), and its clips are exactly those
  of \<open>expected_clips\<close>: segment \<open>i\<close> is mapped to
  \<open>startIndex = max 0 \<lfloor>start * sampleRate\<rfloor>\<close> and
  \<open>endIndex = min bufferLength \<lfloor>end * sampleRate\<rfloor>\<close>, each product being the
  binary64 product of lines 865 and 866; when \<open>endIndex \<le> startIndex\<close>
  it contributes no clip and one line to the log, and the segments after it are still
  processed; otherwise it contributes exactly one clip, the encoding of the samples
  \<open>[startIndex, endIndex)\<close>. A segment whose end is not after its start is among the
  skipped ones.
\<close>

theorem extractSegments_spec:
  "extractSegments nfkd y sr (map as_entry segs) =
     Some (expected_clips nfkd y sr 0 segs, expected_log (length y) sr 0 segs) \<and>
   (b \<le> a \<longrightarrow> is_skipped (length y) sr (a, b, t))"
  using extract_loop_eq [of nfkd y sr segs 0 "[]" "[]"] end_le_start_skipped [of b a]
  by (simp add: extractSegments_def)

theorem extractSegments_spec_witness:
  "extractSegments nfkd_ascii [Fin 0, Fin (1 / 2), Fin 1, Fin 0] 2
     (map as_entry [(10, 10, js ''cd''), (1 / 2, 3 / 2, js ''ab''), (3, 1, js ''ef'')]) =
     Some ([\<lparr>filename = segment_filename nfkd_ascii (Suc 0) (js ''ab''),
              blob = wav_header 2 4 @ pcm_bytes [Fin (1 / 2), Fin 1],
              clip_text = js ''ab'', start_time = Num (1 / 2), end_time = Some (Num (3 / 2)),
              duration = Num 1\<rparr>],
           [skip_message 0, skip_message (Suc (Suc 0))]) \<and>
   is_skipped 4 2 (10, 10, js ''cd'')"
proof -
  have r: "fl64 1 = 1" "fl64 2 = 2" "fl64 3 = 3" "fl64 6 = 6" "fl64 10 = 10" "fl64 20 = 20"
          "fl64 (1 / 2) = 1 / 2" "fl64 (3 / 2) = 3 / 2"
    by (simp_all add: fl64_eval)
  show ?thesis
    using extractSegments_spec [of nfkd_ascii "[Fin 0, Fin (1 / 2), Fin 1, Fin 0]" 2
        "[(10, 10, js ''cd''), (1 / 2, 3 / 2, js ''ab''), (3, 1, js ''ef'')]" 10 10 "js ''cd''"]
    by (simp add: is_skipped_def startIndex_def endIndex_def expected_clip_def r)
qed

section \<open>Properties of the archive builder\<close>

lemma show_nat_digits: "list_all is_digit (show_nat n)"
proof (induction n rule: show_nat.induct)
  case (1 n)
  show ?case
  proof (cases "n < 10")
    case True
    then show ?thesis by (subst show_nat.simps) (simp add: is_digit_def)
  next
    case False
    have "n mod 10 < 10" by simp
    then have "is_digit (48 + n mod 10)" unfolding is_digit_def by linarith
    with 1 False show ?thesis by (subst show_nat.simps) simp
  qed
qed

lemma show_nat_nonempty: "show_nat n \<noteq> []"
  by (subst show_nat.simps) simp

lemma toFixed_two_decimals:
  assumes "\<bar>r\<bar> < 10 ^ 21"
  shows "two_decimals (toFixed big 2 (Num r))"
proof -
  define m where "m = padStart 3 (ch CHR ''0'') (show_nat (nat \<lfloor>\<bar>r\<bar> * 10\<^sup>2 + 1 / 2\<rfloor>))"
  define t where "t = take (length m - 2) m @ js ''.'' @ drop (length m - 2) m"
  have "list_all is_digit (replicate k 48)" for k
    by (simp add: list_all_iff is_digit_def)
  then have dm: "list_all is_digit m"
    by (simp add: m_def padStart_def show_nat_digits ch_def)
  have lm: "3 \<le> length m"
    by (simp add: m_def padStart_def)
  have lt: "length t = length m + 1"
    using lm by (simp add: t_def)
  have t1: "take (length t - 3) t = take (length m - 2) m"
    using lm by (simp add: t_def lt)
  have t2: "t ! (length t - 3) = ch CHR ''.''"
    using lm by (simp add: t_def lt nth_append js_def ch_def)
  have t3: "drop (length t - 2) t = drop (length m - 2) m"
    using lm by (simp add: t_def lt)
  have d1: "list_all is_digit (take (length m - 2) m)"
    using dm by (metis append_take_drop_id list_all_append)
  have d2: "list_all is_digit (drop (length m - 2) m)"
    using dm by (metis append_take_drop_id list_all_append)
  have ht: "hd t \<noteq> ch CHR ''-''"
  proof -
    have "hd t = hd m" using lm by (cases m) (simp_all add: t_def)
    moreover have "is_digit (hd m)" using dm lm by (cases m) simp_all
    ultimately show ?thesis by (simp add: is_digit_def ch_def)
  qed
  have tn: "t \<noteq> []" using lt by auto
  have shape: "4 \<le> length t \<and> list_all is_digit (take (length t - 3) t) \<and>
               t ! (length t - 3) = ch CHR ''.'' \<and> list_all is_digit (drop (length t - 2) t)"
    using lm lt t1 t2 t3 d1 d2 by simp
  have tf: "toFixed big 2 (Num r) = (if r < 0 then js ''-'' else []) @ t"
    using assms by (simp add: toFixed_def m_def t_def Let_def)
  show ?thesis
  proof (cases "r < 0")
    case True
    then have "toFixed big 2 (Num r) = ch CHR ''-'' # t" by (simp add: tf js_def ch_def)
    with shape show ?thesis by (simp add: two_decimals_def Let_def)
  next
    case False
    then have "toFixed big 2 (Num r) = t" by (simp add: tf)
    with shape ht tn show ?thesis by (simp add: two_decimals_def Let_def)
  qed
qed

lemma manifest_entry_Some:
  "end_time f \<noteq> None \<Longrightarrow> manifest_entry big idx f = Some (manifest_text big (idx + 1) f)"
  by (auto simp: manifest_entry_def manifest_text_def)

lemma makeZip_loop_eq:
  "\<forall>f \<in> set fs. end_time f \<noteq> None \<Longrightarrow>
   makeZip_loop big fs idx (z, m) =
     Some (z @ map (\<lambda>f. (filename f, Bytes (blob f))) fs,
           m @ concat (map (\<lambda>(n, f). manifest_text big n f) (enumerate (idx + 1) fs)))"
proof (induction fs arbitrary: idx z m)
  case Nil
  then show ?case by simp
next
  case (Cons f fs)
  then have e: "manifest_entry big idx f = Some (manifest_text big (idx + 1) f)"
    by (simp add: manifest_entry_Some)
  from Cons.prems have r: "\<forall>f \<in> set fs. end_time f \<noteq> None" by simp
  show ?case
    by (simp add: e Cons.IH [OF r])
qed

text \<open>
  Claim C9. For every sequence of clips (each with its end time, as a Clip of the data
  model has), the archive holds every clip's bytes under its filename, in the original
  order, followed by the manifest; the manifest is the header followed, for each clip in
  the original order, by exactly one entry
  \<^verbatim>\<open>"Segment N: <filename>\n  Text: <text>\n  Start: <start>s\n  End: <end>s\n  Duration: <duration>s\n\n"\<close>
  numbered from 1, whose start, end and duration are written by \<^verbatim>\<open>toFixed(2)\<close>; and
  \<^verbatim>\<open>toFixed(2)\<close> writes a number below \<open>10^21\<close> in magnitude with two decimal places.
\<close>

theorem makeZip_manifest:
  "(\<forall>f \<in> set files. end_time f \<noteq> None) \<longrightarrow>
   makeZip big files =
     Some (map (\<lambda>f. (filename f, Bytes (blob f))) files @
           [(js ''metadata.txt'',
             Text (manifest_header @
                   concat (map (\<lambda>(n, f). manifest_text big n f) (enumerate 1 files))))]) \<and>
   (\<forall>r. \<bar>r\<bar> < 10 ^ 21 \<longrightarrow> two_decimals (toFixed big 2 (Num r)))"
  using makeZip_loop_eq [of files big 0 "[]" manifest_header]
  by (simp add: makeZip_def toFixed_two_decimals)

theorem makeZip_manifest_witness:
  "makeZip (\<lambda>r. [])
     [\<lparr>filename = js ''a.wav'', blob = [1, 2], clip_text = js ''hi'', start_time = Num 5,
       end_time = Some (Num (17 / 2)), duration = Num (7 / 2)\<rparr>] =
   Some [(js ''a.wav'', Bytes [1, 2]),
         (js ''metadata.txt'',
          Text (manifest_header @ js ''Segment 1: a.wav'' @ [10] @ js ''  Text: hi'' @ [10] @
                js ''  Start: 5.00s'' @ [10] @ js ''  End: 8.50s'' @ [10] @
                js ''  Duration: 3.50s'' @ [10, 10]))] \<and>
   two_decimals (toFixed (\<lambda>r. []) 2 (Num (- 1 / 8)))"
proof -
  let ?c = "\<lparr>filename = js ''a.wav'', blob = [1, 2], clip_text = js ''hi'', start_time = Num 5,
             end_time = Some (Num (17 / 2)), duration = Num (7 / 2)\<rparr>"
  have h: "\<forall>f \<in> set [?c]. end_time f \<noteq> None" by simp
  have b: "\<bar>- 1 / 8 :: rat\<bar> < 10 ^ 21" by simp
  have t: "manifest_text (\<lambda>r. []) 1 ?c =
           js ''Segment 1: a.wav'' @ [10] @ js ''  Text: hi'' @ [10] @
           js ''  Start: 5.00s'' @ [10] @ js ''  End: 8.50s'' @ [10] @
           js ''  Duration: 3.50s'' @ [10, 10]"
    by (simp add: manifest_text_def toFixed_def padStart_def show_nat.simps js_def ch_def)
  from makeZip_manifest [of "[?c]" "\<lambda>r. []"] h b t show ?thesis
    by simp
qed

section \<open>Properties of the filename sanitizer\<close>

lemma single_seps_tl: "single_seps (c # cs) \<Longrightarrow> single_seps cs"
  by (cases cs) simp_all

lemma single_seps_Cons:
  "single_seps (c # cs) \<longleftrightarrow>
     (is_sep c \<longrightarrow> c = ch CHR ''_'' \<and> (cs \<noteq> [] \<longrightarrow> \<not> is_sep (hd cs))) \<and> single_seps cs"
  by (cases cs) auto

lemma hd_collapse_not_sep:
  "xs \<noteq> [] \<Longrightarrow> \<not> is_sep (hd xs) \<Longrightarrow> collapse xs \<noteq> [] \<and> \<not> is_sep (hd (collapse xs))"
  by (cases xs) simp_all

lemma single_seps_collapse: "single_seps (collapse xs)"
proof (induction xs rule: collapse.induct)
  case 1
  then show ?case by simp
next
  case (2 c cs)
  show ?case
  proof (cases "is_sep c")
    case True
    let ?r = "dropWhile is_sep cs"
    have "collapse ?r \<noteq> [] \<longrightarrow> \<not> is_sep (hd (collapse ?r))"
    proof (cases "?r = []")
      case True
      then have "collapse ?r = []" by (simp only: collapse.simps)
      then show ?thesis by blast
    next
      case False
      then have "\<not> is_sep (hd ?r)" by (rule hd_dropWhile)
      with False show ?thesis using hd_collapse_not_sep by blast
    qed
    with 2 True show ?thesis by (simp add: single_seps_Cons)
  next
    case False
    with 2 show ?thesis by (simp add: single_seps_Cons)
  qed
qed

lemma collapse_single_seps: "single_seps xs \<Longrightarrow> collapse xs = xs"
proof (induction xs rule: single_seps.induct)
  case 1
  then show ?case by simp
next
  case (2 c)
  then show ?case by simp
next
  case (3 c d cs)
  then show ?case by auto
qed

lemma single_seps_take: "single_seps xs \<Longrightarrow> single_seps (take n xs)"
proof (induction xs arbitrary: n rule: single_seps.induct)
  case 1
  then show ?case by simp
next
  case (2 c)
  then show ?case by (cases n) simp_all
next
  case (3 c d cs)
  show ?case
  proof (cases n)
    case 0
    then show ?thesis by simp
  next
    case (Suc m)
    from 3 have "single_seps (take m (d # cs))" by simp
    with 3 Suc show ?thesis by (cases m) simp_all
  qed
qed

lemma single_seps_dropWhile: "single_seps xs \<Longrightarrow> single_seps (dropWhile P xs)"
  by (induction xs) (auto dest: single_seps_tl)

lemma strip_edges_take:
  "strip_edges s = take (length (strip_edges s)) (dropWhile is_edge s)"
proof -
  let ?d = "dropWhile is_edge s"
  have "dropWhile is_edge (rev ?d) = drop (length (takeWhile is_edge (rev ?d))) (rev ?d)"
    by (rule dropWhile_eq_drop)
  then have "strip_edges s = take (length ?d - length (takeWhile is_edge (rev ?d))) ?d"
    by (simp add: strip_edges_def rev_drop)
  then show ?thesis
    by (metis length_take min.absorb2 nat_le_linear take_all)
qed

lemma single_seps_strip_edges: "single_seps xs \<Longrightarrow> single_seps (strip_edges xs)"
  by (subst strip_edges_take) (intro single_seps_take single_seps_dropWhile)

lemma hd_strip_edges: "strip_edges s \<noteq> [] \<Longrightarrow> \<not> is_edge (hd (strip_edges s))"
proof -
  assume n: "strip_edges s \<noteq> []"
  have d: "dropWhile is_edge s \<noteq> []"
  proof
    assume e: "dropWhile is_edge s = []"
    have "strip_edges s = []"
      by (simp only: strip_edges_def e rev.simps dropWhile.simps)
    with n show False by contradiction
  qed
  have "hd (strip_edges s) = hd (dropWhile is_edge s)"
    using n by (subst strip_edges_take) (simp add: hd_take)
  with d show ?thesis by (simp add: hd_dropWhile)
qed

lemma set_strip_edges: "set (strip_edges s) \<subseteq> set s"
proof -
  have "set (strip_edges s) \<subseteq> set (dropWhile is_edge s)"
    by (subst strip_edges_take) (rule set_take_subset)
  also have "\<dots> \<subseteq> set s" by (rule set_dropWhileD [THEN subsetI])
  finally show ?thesis .
qed

lemma plain_collapse: "list_all is_kept xs \<Longrightarrow> list_all is_plain (collapse xs)"
proof (induction xs rule: collapse.induct)
  case 1
  then show ?case by simp
next
  case (2 c cs)
  show ?case
  proof (cases "is_sep c")
    case True
    have "list_all is_kept (dropWhile is_sep cs)"
      using 2(3) by (auto simp: list_all_iff dest: set_dropWhileD)
    with 2 True show ?thesis by (simp add: is_plain_def is_word_def ch_def)
  next
    case False
    with 2 show ?thesis
      by (auto simp: is_plain_def is_kept_def is_sep_def)
  qed
qed

lemma plain_not_reserved: "is_plain c \<Longrightarrow> \<not> is_reserved c"
  by (auto simp: is_plain_def is_word_def is_digit_def is_reserved_def ch_def)

lemma plain_kept: "is_plain c \<Longrightarrow> is_kept c"
  by (auto simp: is_plain_def is_kept_def)

text \<open>The name before the cut to 25 characters.\<close>

lemma safeFilename_shape:
  fixes nfkd t
  defines "s0 \<equiv> strip_edges (collapse (map (\<lambda>c. if is_kept c then c else ch CHR ''_'')
                      (filter (\<lambda>c. \<not> is_reserved c) (nfkd t))))"
  defines "s \<equiv> (if length s0 < 2 then js ''audio_segment'' else s0)"
  shows "safeFilename nfkd t = take 25 s" "list_all is_plain s" "single_seps s"
        "2 \<le> length s" "\<not> is_edge (hd s)"
proof -
  show "safeFilename nfkd t = take 25 s"
    by (simp add: safeFilename_def s_def s0_def Let_def)
  have h: "is_kept (ch CHR ''_'')"
    by (simp add: is_kept_def)
  have k: "list_all is_kept (map (\<lambda>c. if is_kept c then c else ch CHR ''_'')
                      (filter (\<lambda>c. \<not> is_reserved c) (nfkd t)))"
    unfolding list_all_iff using h by auto
  have p0: "list_all is_plain s0"
    using plain_collapse [OF k] set_strip_edges unfolding s0_def list_all_iff by blast
  have g0: "single_seps s0"
    unfolding s0_def by (intro single_seps_strip_edges single_seps_collapse)
  have a: "list_all is_plain (js ''audio_segment'')" "single_seps (js ''audio_segment'')"
       "\<not> is_edge (hd (js ''audio_segment''))"
    by (simp_all add: js_def is_plain_def is_word_def is_sep_def is_space_def is_edge_def ch_def)
  show "list_all is_plain s" using p0 a by (simp add: s_def)
  show "single_seps s" using g0 a by (simp add: s_def)
  show "2 \<le> length s" by (simp add: s_def)
  show "\<not> is_edge (hd s)"
  proof (cases "length s0 < 2")
    case True
    with a show ?thesis by (simp add: s_def)
  next
    case False
    then have "s0 \<noteq> []" by auto
    then have "\<not> is_edge (hd s0)" unfolding s0_def by (rule hd_strip_edges)
    with False show ?thesis by (simp add: s_def)
  qed
qed

text \<open>
  Claim C10, as amended. When the normalization leaves a string of word characters and
  periods as it is (NFKD does so: these are ASCII), and the sanitized name does not end
  in an underscore or a period, sanitizing it again returns it unchanged.
\<close>

theorem safeFilename_idempotent:
  assumes nfkd: "\<forall>s. list_all is_plain s \<longrightarrow> nfkd s = s"
    and last: "\<not> is_edge (last (safeFilename nfkd t))"
  shows "safeFilename nfkd (safeFilename nfkd t) = safeFilename nfkd t"
proof -
  define s0 where "s0 = strip_edges (collapse (map (\<lambda>c. if is_kept c then c else ch CHR ''_'')
                      (filter (\<lambda>c. \<not> is_reserved c) (nfkd t))))"
  define s where "s = (if length s0 < 2 then js ''audio_segment'' else s0)"
  define r where "r = safeFilename nfkd t"
  note sh = safeFilename_shape [of nfkd t, folded s0_def, folded s_def]
  have r: "r = take 25 s" by (simp add: r_def sh(1))
  have len: "2 \<le> length r" "length r \<le> 25" using sh(4) by (simp_all add: r)
  have ne: "r \<noteq> []" using len by auto
  have pl: "list_all is_plain r"
    using sh(2) unfolding r list_all_iff by (meson in_set_takeD)
  have ss: "single_seps r" unfolding r using sh(3) by (rule single_seps_take)
  have hd: "\<not> is_edge (hd r)" using sh(5) len by (simp add: r hd_take)
  have 1: "nfkd r = r" using nfkd pl by blast
  have 2: "filter (\<lambda>c. \<not> is_reserved c) r = r"
    using pl by (simp add: list_all_iff plain_not_reserved)
  have 3: "map (\<lambda>c. if is_kept c then c else ch CHR ''_'') r = r"
    using pl by (simp add: list_all_iff plain_kept map_idI)
  have 4: "collapse r = r" using ss by (rule collapse_single_seps)
  have d1: "dropWhile is_edge r = r" using hd ne by (cases r) simp_all
  have "\<not> is_edge (hd (rev r))" using last ne by (simp add: r_def hd_rev)
  then have d2: "dropWhile is_edge (rev r) = rev r" using ne by (cases "rev r") simp_all
  have 5: "strip_edges r = r" by (simp add: strip_edges_def d1 d2)
  have "safeFilename nfkd r = r"
    using len by (simp add: safeFilename_def 1 2 3 4 5 Let_def)
  then show ?thesis by (simp add: r_def)
qed

theorem safeFilename_idempotent_witness:
  "safeFilename nfkd_ascii (safeFilename nfkd_ascii (js ''Hello, world!'')) =
     safeFilename nfkd_ascii (js ''Hello, world!'') \<and>
   safeFilename nfkd_ascii (js ''Hello, world!'') = js ''Hello_world''"
proof -
  have v: "safeFilename nfkd_ascii (js ''Hello, world!'') = js ''Hello_world''"
    by (simp add: safeFilename_def nfkd_ascii_def js_def ch_def is_reserved_def is_kept_def
        is_word_def is_digit_def is_space_def is_sep_def is_edge_def strip_edges_def)
  have n: "\<forall>s. list_all is_plain s \<longrightarrow> nfkd_ascii s = s" by (simp add: nfkd_ascii_def)
  have l: "\<not> is_edge (last (safeFilename nfkd_ascii (js ''Hello, world!'')))"
    by (simp add: v) (simp add: js_def is_edge_def ch_def)
  from safeFilename_idempotent [OF n l] v show ?thesis by simp
qed

text \<open>
  Claim C10 as stated fails at a text of 24 letters followed by \<^verbatim>\<open>_b\<close>: the cut to 25
  characters comes after the trimming and leaves a name that ends in an underscore, which
  the second application trims.
\<close>

theorem safeFilename_idempotent_counterexample:
  "safeFilename nfkd_ascii (js ''aaaaaaaaaaaaaaaaaaaaaaaa_b'') = js ''aaaaaaaaaaaaaaaaaaaaaaaa_'' \<and>
   safeFilename nfkd_ascii (js ''aaaaaaaaaaaaaaaaaaaaaaaa_'') = js ''aaaaaaaaaaaaaaaaaaaaaaaa''"
  by (simp add: safeFilename_def nfkd_ascii_def js_def ch_def is_reserved_def is_kept_def
      is_word_def is_digit_def is_space_def is_sep_def is_edge_def strip_edges_def)

section \<open>Properties of the timestamp parser\<close>

lemmas regex_defs =
  re1_def re2_def re3_def re4_def re5_def re6_def re7_def re8_def lit_def ch_def
  re_hhmmss_def re_srt_def re_simple_def re_number_def spaces0_def spaces1_def rest_of_line_def
  is_digit_def is_space_def is_dot_def

lemmas parser_defs =
  timestamped_def split_lines_def parse_line_def js_def trim_def hhmmssToSeconds_def
  srtToSeconds_def simpleToSeconds_def split_on_def Number_def elem_def dec_def regex_defs

text \<open>
  Claim C3. One well-formed example per layout (three for layout 5, which has three
  forms; the example of layout 2 is its two-line block) gives exactly one entry: hours,
  minutes and seconds are converted as \<open>HH * 3600 + MM * 60 + SS\<close>, the milliseconds of
  the subtitle form add \<open>mmm / 1000\<close>, \<open>M:SS\<close> is \<open>M * 60 + S\<close>, a bare number is
  its value in seconds; layouts 1 to 4 give the converted second timestamp as the end,
  layouts 5 and 6 give no end.
\<close>

theorem parser_layout_examples:
  "timestamped (js ''[00:01:05 - 01:02:03] first'') =
     [\<lparr>seg_start = Num (0 * 3600 + 1 * 60 + 5), seg_end = Some (Num (1 * 3600 + 2 * 60 + 3)),
       seg_text = js ''first''\<rparr>] \<and>
   timestamped (js ''00:00:01,500 --> 00:01:04,250'' @ [10] @ js ''Hello there'') =
     [\<lparr>seg_start = Num (0 * 3600 + 0 * 60 + 1 + 500 / 1000),
       seg_end = Some (Num (0 * 3600 + 1 * 60 + 4 + 250 / 1000)),
       seg_text = js ''Hello there''\<rparr>] \<and>
   timestamped (js ''1:05 - 12:10 third'') =
     [\<lparr>seg_start = Num (1 * 60 + 5), seg_end = Some (Num (12 * 60 + 10)),
       seg_text = js ''third''\<rparr>] \<and>
   timestamped (js ''12.5 - 15 fourth'') =
     [\<lparr>seg_start = Num (125 / 10), seg_end = Some (Num 15), seg_text = js ''fourth''\<rparr>] \<and>
   timestamped (js ''[1:05] fifth'') =
     [\<lparr>seg_start = Num (1 * 60 + 5), seg_end = None, seg_text = js ''fifth''\<rparr>] \<and>
   timestamped (js ''(12:30) fifth'') =
     [\<lparr>seg_start = Num (12 * 60 + 30), seg_end = None, seg_text = js ''fifth''\<rparr>] \<and>
   timestamped (js ''1:05 fifth'') =
     [\<lparr>seg_start = Num (1 * 60 + 5), seg_end = None, seg_text = js ''fifth''\<rparr>] \<and>
   timestamped (js ''42 sixth'') =
     [\<lparr>seg_start = Num 42, seg_end = None, seg_text = js ''sixth''\<rparr>]"
proof (intro conjI)
  show "timestamped (js ''[00:01:05 - 01:02:03] first'') =
     [\<lparr>seg_start = Num (0 * 3600 + 1 * 60 + 5), seg_end = Some (Num (1 * 3600 + 2 * 60 + 3)),
       seg_text = js ''first''\<rparr>]"
    by (simp add: parser_defs)
  show "timestamped (js ''00:00:01,500 --> 00:01:04,250'' @ [10] @ js ''Hello there'') =
     [\<lparr>seg_start = Num (0 * 3600 + 0 * 60 + 1 + 500 / 1000),
       seg_end = Some (Num (0 * 3600 + 1 * 60 + 4 + 250 / 1000)),
       seg_text = js ''Hello there''\<rparr>]"
    by (simp add: parser_defs)
  show "timestamped (js ''1:05 - 12:10 third'') =
     [\<lparr>seg_start = Num (1 * 60 + 5), seg_end = Some (Num (12 * 60 + 10)),
       seg_text = js ''third''\<rparr>]"
    by (simp add: parser_defs)
  show "timestamped (js ''12.5 - 15 fourth'') =
     [\<lparr>seg_start = Num (125 / 10), seg_end = Some (Num 15), seg_text = js ''fourth''\<rparr>]"
    by (simp add: parser_defs)
  show "timestamped (js ''[1:05] fifth'') =
     [\<lparr>seg_start = Num (1 * 60 + 5), seg_end = None, seg_text = js ''fifth''\<rparr>]"
    by (simp add: parser_defs)
  show "timestamped (js ''(12:30) fifth'') =
     [\<lparr>seg_start = Num (12 * 60 + 30), seg_end = None, seg_text = js ''fifth''\<rparr>]"
    by (simp add: parser_defs)
  show "timestamped (js ''1:05 fifth'') =
     [\<lparr>seg_start = Num (1 * 60 + 5), seg_end = None, seg_text = js ''fifth''\<rparr>]"
    by (simp add: parser_defs)
  show "timestamped (js ''42 sixth'') =
     [\<lparr>seg_start = Num 42, seg_end = None, seg_text = js ''sixth''\<rparr>]"
    by (simp add: parser_defs)
qed

text \<open>
  Claim C4 fails on the code. After a subtitle timing line the loop goes on with the next
  line, which it has already used as the text of the block, and matches it against the
  layouts: a text line that starts with a number produces a second entry.
\<close>

theorem subtitle_text_line_parsed_again:
  "timestamped (js ''00:00:01,000 --> 00:00:04,000'' @ [10] @ js ''5 apples'') =
     [\<lparr>seg_start = Num 1, seg_end = Some (Num 4), seg_text = js ''5 apples''\<rparr>,
      \<lparr>seg_start = Num 5, seg_end = None, seg_text = js ''apples''\<rparr>]"
  by (simp add: parser_defs)

text \<open>
  Claim C8. The transcript \<^verbatim>\<open>[00:00:05 - 00:00:08] hello world\<close> and a buffer of
  20 seconds of silence at 16000 Hz give exactly one clip and no skipped segment. The clip
  is named \<^verbatim>\<open>segment_001_hello_world.wav\<close> and lasts 3 seconds; its container is 44
  bytes of header and 96000 bytes of data (all zero), the data chunk size field holds
  96000 and the RIFF chunk size field 36 + 96000.
\<close>

theorem end_to_end_scenario:
  assumes "nfkd (js ''hello world'') = js ''hello world''"
  shows "\<exists>c. extractSegments nfkd (replicate (20 * 16000) (Fin 0)) 16000
               (parseTranscriptFile (js ''[00:00:05 - 00:00:08] hello world'')) = Some ([c], []) \<and>
             filename c = js ''segment_001_hello_world.wav'' \<and>
             duration c = Num 3 \<and>
             length (blob c) = 44 + 3 * 16000 * 2 \<and>
             get_le 4 (blob c) 40 = 96000 \<and>
             get_le 4 (blob c) 4 = 36 + 96000 \<and>
             drop 44 (blob c) = replicate 96000 0"
proof -
  let ?y = "replicate (20 * 16000) (Fin 0)"
  let ?cut = "replicate 48000 (Fin 0)"
  have p: "parseTranscriptFile (js ''[00:00:05 - 00:00:08] hello world'') =
           map as_entry [(5, 8, js ''hello world'')]"
    by (simp add: parseTranscriptFile_def synthesize_def as_entry_def parser_defs)
  have r: "fl64 5 = 5" "fl64 8 = 8" "fl64 3 = 3" "fl64 16000 = 16000"
          "fl64 80000 = 80000" "fl64 128000 = 128000"
    by (simp_all add: fl64_eval)
  have n: "\<not> is_skipped (length ?y) 16000 (5, 8, js ''hello world'')"
    by (simp add: is_skipped_def startIndex_def endIndex_def r)
  have f: "segment_filename nfkd 0 (js ''hello world'') = js ''segment_001_hello_world.wav''"
  proof -
    have "safeFilename nfkd (js ''hello world'') = js ''hello_world''"
      using assms
      by (simp add: safeFilename_def js_def ch_def is_reserved_def is_kept_def
          is_word_def is_digit_def is_space_def is_sep_def is_edge_def strip_edges_def)
    moreover have "take 30 (js ''hello world'') = js ''hello world''"
      by (simp add: js_def)
    moreover have "replicate 2 (48 :: nat) = [48, 48]"
      by (simp add: numeral_2_eq_2)
    ultimately show ?thesis
      by (simp add: segment_filename_def padStart_def show_nat.simps) (simp add: js_def ch_def)
  qed
  have c: "expected_clip nfkd ?y 16000 0 (5, 8, js ''hello world'') =
           \<lparr>filename = js ''segment_001_hello_world.wav'',
            blob = wav_header 16000 (length ?cut * 2) @ pcm_bytes ?cut,
            clip_text = js ''hello world'', start_time = Num 5, end_time = Some (Num 8),
            duration = Num 3\<rparr>"
    by (simp add: expected_clip_def startIndex_def endIndex_def f r)
  have e: "extractSegments nfkd ?y 16000 (parseTranscriptFile (js ''[00:00:05 - 00:00:08] hello world'')) =
           Some ([expected_clip nfkd ?y 16000 0 (5, 8, js ''hello world'')], [])"
    unfolding p extractSegments_def extract_loop_eq using n by simp
  have d: "drop 44 (wav_header 16000 (length ?cut * 2) @ pcm_bytes ?cut) = replicate 96000 0"
    by (simp add: pcm_bytes_silence)
  have g: "get_le 4 (wav_header 16000 (length ?cut * 2) @ pcm_bytes ?cut) 40 = 96000"
          "get_le 4 (wav_header 16000 (length ?cut * 2) @ pcm_bytes ?cut) 4 = 36 + 96000"
    by (simp_all add: get_le_header)
  show ?thesis
    unfolding e c using d g by simp
qed

theorem end_to_end_scenario_witness:
  "\<exists>c. extractSegments nfkd_ascii (replicate (20 * 16000) (Fin 0)) 16000
               (parseTranscriptFile (js ''[00:00:05 - 00:00:08] hello world'')) = Some ([c], []) \<and>
        filename c = js ''segment_001_hello_world.wav'' \<and> length (blob c) = 96044"
proof -
  have "nfkd_ascii (js ''hello world'') = js ''hello world''"
    by (simp add: nfkd_ascii_def)
  from end_to_end_scenario [of nfkd_ascii, OF this] show ?thesis by auto
qed

section \<open>What a match captures\<close>

lemma rep_sound:
  "rep k c lo hi acc xs = Some r \<Longrightarrow> list_all (cls_ok c) acc \<Longrightarrow>
   (case hi of None \<Rightarrow> True | Some h \<Rightarrow> length acc \<le> h) \<Longrightarrow>
   \<exists>p rest. k p rest = Some r \<and> list_all (cls_ok c) p \<and> lo \<le> length p \<and>
            (case hi of None \<Rightarrow> True | Some h \<Rightarrow> length p \<le> h)"
proof (induction xs arbitrary: acc)
  case Nil
  then show ?case by (auto split: if_splits)
next
  case (Cons x xs)
  show ?case
  proof (cases "below hi (length acc) \<and> cls_ok c x \<and> rep k c lo hi (acc @ [x]) xs \<noteq> None")
    case True
    then obtain r' where r': "rep k c lo hi (acc @ [x]) xs = Some r'" by auto
    with True Cons.prems(1) have "r' = r" by simp
    moreover have "list_all (cls_ok c) (acc @ [x])" using True Cons.prems(2) by simp
    moreover have "case hi of None \<Rightarrow> True | Some h \<Rightarrow> length (acc @ [x]) \<le> h"
      using True by (cases hi) simp_all
    ultimately show ?thesis using Cons.IH r' by blast
  next
    case False
    then have "(case (if below hi (length acc) \<and> cls_ok c x
                      then rep k c lo hi (acc @ [x]) xs else None) of
                  Some r \<Rightarrow> Some r
                | None \<Rightarrow> if lo \<le> length acc then k acc (x # xs) else None) =
               (if lo \<le> length acc then k acc (x # xs) else None)"
      by (auto split: option.splits)
    with Cons.prems(1) have "lo \<le> length acc" "k acc (x # xs) = Some r"
      by (simp_all split: if_splits)
    with Cons.prems(2,3) show ?thesis by blast
  qed
qed

lemma match_atoms_sound: "match_atoms as s = Some ps \<Longrightarrow> list_all2 fits as ps"
proof (induction as arbitrary: s ps)
  case Nil
  then show ?case by (simp split: if_splits)
next
  case (Cons a as)
  from Cons.prems
  have "rep (\<lambda>p rest. map_option (Cons p) (match_atoms as rest)) (a_cls a) (a_lo a) (a_hi a) [] s =
        Some ps"
    by simp
  then obtain p rest where k: "map_option (Cons p) (match_atoms as rest) = Some ps"
    and f: "list_all (cls_ok (a_cls a)) p" "a_lo a \<le> length p"
      "case a_hi a of None \<Rightarrow> True | Some h \<Rightarrow> length p \<le> h"
    using rep_sound [of "\<lambda>p rest. map_option (Cons p) (match_atoms as rest)"
        "a_cls a" "a_lo a" "a_hi a" "[]" s ps]
    by (cases "a_hi a") auto
  from k obtain qs where qs: "match_atoms as rest = Some qs" "ps = p # qs" by auto
  from Cons.IH [OF qs(1)] f qs(2) show ?case by (simp add: fits_def)
qed

text \<open>A capture is made of the pieces of the atoms of its group.\<close>

lemma capture_group:
  "list_all2 fits as ps \<Longrightarrow>
   \<exists>qs. list_all2 fits (filter (\<lambda>a. a_grp a = g) as) qs \<and> capture g as ps = concat qs"
proof (induction as ps rule: list_all2_induct)
  case Nil
  then show ?case by simp
next
  case (Cons a as p ps)
  then obtain qs where qs: "list_all2 fits (filter (\<lambda>a. a_grp a = g) as) qs"
      "capture g as ps = concat qs" by blast
  show ?case
  proof (cases "a_grp a = g")
    case True
    with Cons(1) qs have "list_all2 fits (filter (\<lambda>a. a_grp a = g) (a # as)) (p # qs) \<and>
        capture g (a # as) (p # ps) = concat (p # qs)" by simp
    then show ?thesis by blast
  next
    case False
    with qs show ?thesis by auto
  qed
qed


section \<open>The conversions on what the expressions capture\<close>

lemma Number_digits:
  "ds \<noteq> [] \<Longrightarrow> list_all is_digit ds \<Longrightarrow> Number ds = Num (of_nat (dec ds))"
proof -
  assume n: "ds \<noteq> []" and d: "list_all is_digit ds"
  have tw: "takeWhile is_digit ds = ds" and dw: "dropWhile is_digit ds = []"
    using d by (simp_all add: list_all_iff)
  show ?thesis unfolding Number_def Let_def tw dw using n by simp
qed

lemma Number_decimal:
  assumes "ds \<noteq> []" "list_all is_digit ds" "list_all is_digit fs"
  shows "Number (ds @ ch CHR ''.'' # fs) =
         Num (of_nat (dec ds) + of_nat (dec fs) / 10 ^ length fs)"
proof -
  have p: "\<not> is_digit (ch CHR ''.'')" by (simp add: is_digit_def ch_def)
  have tw: "takeWhile is_digit (ds @ ch CHR ''.'' # fs) = ds"
    using assms(2) p by (simp add: list_all_iff takeWhile_append2)
  have dw: "dropWhile is_digit (ds @ ch CHR ''.'' # fs) = ch CHR ''.'' # fs"
    using assms(2) p by (simp add: list_all_iff dropWhile_append2)
  show ?thesis unfolding Number_def Let_def tw dw using assms by simp
qed

lemma split_at_no_sep: "sep \<notin> set ds \<Longrightarrow> split_at sep cur ds = [cur @ ds]"
  by (induction ds arbitrary: cur) simp_all

lemma split_at_sep:
  "sep \<notin> set ds \<Longrightarrow> split_at sep cur (ds @ sep # rest) = (cur @ ds) # split_at sep [] rest"
  by (induction ds arbitrary: cur) simp_all

lemma digits_no_colon: "list_all is_digit ds \<Longrightarrow> ch CHR '':'' \<notin> set ds"
  by (auto simp: list_all_iff is_digit_def ch_def)

lemma digits_no_comma: "list_all is_digit ds \<Longrightarrow> ch CHR '','' \<notin> set ds"
  by (auto simp: list_all_iff is_digit_def ch_def)

lemma hhmmssToSeconds_digits:
  assumes "h \<noteq> []" "m \<noteq> []" "s \<noteq> []"
    and "list_all is_digit h" "list_all is_digit m" "list_all is_digit s"
  shows "hhmmssToSeconds (h @ ch CHR '':'' # m @ ch CHR '':'' # s) =
         Num (of_nat (dec h) * 3600 + of_nat (dec m) * 60 + of_nat (dec s))"
proof -
  have "split_on (ch CHR '':'') (h @ ch CHR '':'' # m @ ch CHR '':'' # s) = [h, m, s]"
    using assms(4-6)
    by (simp add: split_on_def split_at_sep split_at_no_sep digits_no_colon)
  then show ?thesis
    using assms by (simp add: hhmmssToSeconds_def elem_def Number_digits)
qed

lemma simpleToSeconds_digits:
  assumes "m \<noteq> []" "s \<noteq> []" and "list_all is_digit m" "list_all is_digit s"
  shows "simpleToSeconds (m @ ch CHR '':'' # s) = Num (of_nat (dec m) * 60 + of_nat (dec s))"
proof -
  have "split_on (ch CHR '':'') (m @ ch CHR '':'' # s) = [m, s]"
    using assms(3,4)
    by (simp add: split_on_def split_at_sep split_at_no_sep digits_no_colon)
  then show ?thesis
    using assms by (simp add: simpleToSeconds_def elem_def Number_digits)
qed

lemma srtToSeconds_digits:
  assumes "h \<noteq> []" "m \<noteq> []" "s \<noteq> []" "ms \<noteq> []"
    and "list_all is_digit h" "list_all is_digit m" "list_all is_digit s" "list_all is_digit ms"
  shows "srtToSeconds (h @ ch CHR '':'' # m @ ch CHR '':'' # s @ ch CHR '','' # ms) =
         Num (of_nat (dec h) * 3600 + of_nat (dec m) * 60 + of_nat (dec s) + of_nat (dec ms) / 1000)"
proof -
  let ?t = "h @ ch CHR '':'' # m @ ch CHR '':'' # s"
  have "ch CHR '','' \<notin> set ?t"
    using assms(5-7) digits_no_comma by (auto simp: ch_def)
  then have "split_at (ch CHR '','') [] (?t @ ch CHR '','' # ms) =
             ([] @ ?t) # split_at (ch CHR '','') [] ms"
    by (rule split_at_sep)
  then have "split_on (ch CHR '','') (h @ ch CHR '':'' # m @ ch CHR '':'' # s @ ch CHR '','' # ms) =
             [?t, ms]"
    using assms(8) by (simp add: split_on_def split_at_no_sep digits_no_comma)
  then show ?thesis
    using assms hhmmssToSeconds_digits [of h m s]
    by (simp add: srtToSeconds_def elem_def Number_digits)
qed

lemma fits_lit: "fits (Atom g (Lit k) (Suc 0) (Some (Suc 0))) p \<longleftrightarrow> p = [k]"
proof
  assume "fits (Atom g (Lit k) (Suc 0) (Some (Suc 0))) p"
  then have "length p = 1" "list_all (\<lambda>c. c = k) p"
    by (auto simp: fits_def list_all_iff)
  then show "p = [k]" by (cases p) auto
qed (simp add: fits_def)

lemma fits_digits:
  "fits (Atom g Digit lo hi) p \<Longrightarrow> 0 < lo \<Longrightarrow> p \<noteq> [] \<and> list_all is_digit p"
  by (auto simp: fits_def list_all_iff)

lemma fits_digits0: "fits (Atom g Digit lo hi) p \<Longrightarrow> list_all is_digit p"
  by (auto simp: fits_def list_all_iff)

lemma fits_opt_lit: "fits (Atom g (Lit k) 0 (Some 1)) p \<Longrightarrow> p = [] \<or> p = [k]"
proof -
  assume "fits (Atom g (Lit k) 0 (Some 1)) p"
  then have "length p \<le> 1" "list_all (\<lambda>c. c = k) p"
    by (auto simp: fits_def list_all_iff)
  then show ?thesis by (cases p) auto
qed

lemma hhmmss_capture:
  "list_all2 fits (re_hhmmss g) qs \<Longrightarrow> nonneg (hhmmssToSeconds (concat qs))"
  by (auto simp: re_hhmmss_def list_all2_Cons1 fits_lit nonneg_def hhmmssToSeconds_digits
      dest!: fits_digits)

lemma simple_capture:
  "list_all2 fits (re_simple g) qs \<Longrightarrow> nonneg (simpleToSeconds (concat qs))"
  by (auto simp: re_simple_def list_all2_Cons1 fits_lit nonneg_def simpleToSeconds_digits
      dest!: fits_digits)

lemma srt_capture:
  "list_all2 fits (re_srt g) qs \<Longrightarrow> nonneg (srtToSeconds (concat qs))"
  by (auto simp: re_srt_def re_hhmmss_def list_all2_Cons1 fits_lit nonneg_def srtToSeconds_digits
      dest!: fits_digits)

lemma number_capture:
  "list_all2 fits (re_number g) qs \<Longrightarrow> nonneg (Number (concat qs))"
proof -
  assume "list_all2 fits (re_number g) qs"
  then obtain a b c where qs: "qs = [a, b, c]" and a: "fits (Atom g Digit 1 None) a"
    and b: "fits (Atom g (Lit (ch CHR ''.'')) 0 (Some 1)) b" and c: "fits (Atom g Digit 0 None) c"
    by (auto simp: re_number_def list_all2_Cons1)
  from a have a': "a \<noteq> []" "list_all is_digit a" using fits_digits by auto
  from c have c': "list_all is_digit c" by (rule fits_digits0)
  from b have "b = [] \<or> b = [ch CHR ''.'']" by (rule fits_opt_lit)
  then show ?thesis
  proof
    assume "b = []"
    then have "Number (concat qs) = Num (of_nat (dec (a @ c)))"
      using a' c' by (simp add: qs Number_digits)
    then show ?thesis by (simp add: nonneg_def)
  next
    assume "b = [ch CHR ''.'']"
    then have "Number (concat qs) = Num (of_nat (dec a) + of_nat (dec c) / 10 ^ length c)"
      using a' c' by (simp add: qs Number_decimal)
    then show ?thesis by (simp add: nonneg_def)
  qed
qed


lemma captured:
  assumes "match_atoms re line = Some m" "filter (\<lambda>a. a_grp a = g) re = sub"
  shows "\<exists>qs. list_all2 fits sub qs \<and> capture g re m = concat qs"
  using capture_group [OF match_atoms_sound [OF assms(1)], of g] assms(2) by simp

lemma groups:
  "filter (\<lambda>a. a_grp a = 1) re1 = re_hhmmss 1" "filter (\<lambda>a. a_grp a = 2) re1 = re_hhmmss 2"
  "filter (\<lambda>a. a_grp a = 1) re2 = re_srt 1" "filter (\<lambda>a. a_grp a = 2) re2 = re_srt 2"
  "filter (\<lambda>a. a_grp a = 1) re3 = re_simple 1" "filter (\<lambda>a. a_grp a = 2) re3 = re_simple 2"
  "filter (\<lambda>a. a_grp a = 1) re4 = re_number 1" "filter (\<lambda>a. a_grp a = 2) re4 = re_number 2"
  "filter (\<lambda>a. a_grp a = 1) re5 = re_simple 1"
  "filter (\<lambda>a. a_grp a = 1) re6 = re_simple 1"
  "filter (\<lambda>a. a_grp a = 1) re7 = re_simple 1"
  "filter (\<lambda>a. a_grp a = 1) re8 = re_number 1"
  by (simp_all add: re1_def re2_def re3_def re4_def re5_def re6_def re7_def re8_def
      re_hhmmss_def re_srt_def re_simple_def re_number_def lit_def spaces0_def spaces1_def
      rest_of_line_def)

lemma re1_times:
  "match_atoms re1 line = Some m \<Longrightarrow>
   nonneg (hhmmssToSeconds (capture 1 re1 m)) \<and> nonneg (hhmmssToSeconds (capture 2 re1 m))"
  using captured [OF _ groups(1)] captured [OF _ groups(2)] hhmmss_capture by metis

lemma re2_times:
  "match_atoms re2 line = Some m \<Longrightarrow>
   nonneg (srtToSeconds (capture 1 re2 m)) \<and> nonneg (srtToSeconds (capture 2 re2 m))"
  using captured [OF _ groups(3)] captured [OF _ groups(4)] srt_capture by metis

lemma re3_times:
  "match_atoms re3 line = Some m \<Longrightarrow>
   nonneg (simpleToSeconds (capture 1 re3 m)) \<and> nonneg (simpleToSeconds (capture 2 re3 m))"
  using captured [OF _ groups(5)] captured [OF _ groups(6)] simple_capture by metis

lemma re4_times:
  "match_atoms re4 line = Some m \<Longrightarrow>
   nonneg (Number (capture 1 re4 m)) \<and> nonneg (Number (capture 2 re4 m))"
  using captured [OF _ groups(7)] captured [OF _ groups(8)] number_capture by metis

lemma re5_times: "match_atoms re5 line = Some m \<Longrightarrow> nonneg (simpleToSeconds (capture 1 re5 m))"
  using captured [OF _ groups(9)] simple_capture by metis

lemma re6_times: "match_atoms re6 line = Some m \<Longrightarrow> nonneg (simpleToSeconds (capture 1 re6 m))"
  using captured [OF _ groups(10)] simple_capture by metis

lemma re7_times: "match_atoms re7 line = Some m \<Longrightarrow> nonneg (simpleToSeconds (capture 1 re7 m))"
  using captured [OF _ groups(11)] simple_capture by metis

lemma re8_times: "match_atoms re8 line = Some m \<Longrightarrow> nonneg (Number (capture 1 re8 m))"
  using captured [OF _ groups(12)] number_capture by metis

lemmas re_times =
  re1_times re2_times re3_times re4_times re5_times re6_times re7_times re8_times

lemma parse_line_nonneg: "e \<in> set (parse_line line rest) \<Longrightarrow> nonneg_times e"
  unfolding parse_line_def Let_def
  by (auto simp: nonneg_times_def simp del: One_nat_def split: if_splits option.splits
      dest: re_times re_times [OF sym])

lemma parse_lines_nonneg: "list_all nonneg_times (parse_lines ls)"
  by (induction ls) (auto simp: list_all_iff dest: parse_line_nonneg)

lemma synth_loop_nonneg: "list_all nonneg_times es \<Longrightarrow> list_all nonneg_times (synth_loop es)"
proof (induction es rule: synth_loop.induct)
  case 1
  then show ?case by simp
next
  case (2 cur)
  then show ?case
    by (cases "seg_start cur") (simp_all add: nonneg_times_def nonneg_def)
next
  case (3 cur nxt rest)
  then show ?case by (simp add: nonneg_times_def)
qed

lemma synthesize_nonneg: "list_all nonneg_times es \<Longrightarrow> list_all nonneg_times (synthesize es)"
  by (cases es) (simp_all add: synthesize_def synth_loop_nonneg del: synth_loop.simps)

text \<open>
  Claim C6, as amended. For every transcript text, every segment that the parser and the
  synthesizer produce has a start that is a non-negative number, and its end, when it
  has one, is a non-negative number. That the end is after the start is not guaranteed:
  an explicit end is taken as written, and a synthesized end is the start of the next
  entry whatever the order of the entries.
\<close>

theorem segments_nonneg:
  "\<forall>seg \<in> set (parseTranscriptFile text).
     nonneg (seg_start seg) \<and> (case seg_end seg of None \<Rightarrow> True | Some x \<Rightarrow> nonneg x)"
  using synthesize_nonneg [OF parse_lines_nonneg, of "map trim (split_lines text)"]
  by (simp add: parseTranscriptFile_def timestamped_def list_all_iff nonneg_times_def)

theorem segments_nonneg_witness:
  "parseTranscriptFile (js ''7 - 9.5 seven'') =
     [\<lparr>seg_start = Num 7, seg_end = Some (Num (19 / 2)), seg_text = js ''seven''\<rparr>] \<and>
   nonneg (Num 7) \<and> nonneg (Num (19 / 2))"
proof -
  have p: "parseTranscriptFile (js ''7 - 9.5 seven'') =
     [\<lparr>seg_start = Num 7, seg_end = Some (Num (19 / 2)), seg_text = js ''seven''\<rparr>]"
    by (simp add: parseTranscriptFile_def synthesize_def parser_defs)
  from segments_nonneg [of "js ''7 - 9.5 seven''"] show ?thesis
    unfolding p by simp
qed

text \<open>
  Claim C6 as stated fails: a line whose explicit end is before its start is parsed into a
  segment as written, and two onset-only lines out of order give a synthesized end before
  the start.
\<close>

theorem segment_invariant_counterexample:
  "parseTranscriptFile (js ''[00:00:08 - 00:00:05] x'') =
     [\<lparr>seg_start = Num 8, seg_end = Some (Num 5), seg_text = js ''x''\<rparr>] \<and>
   \<not> segment_invariant \<lparr>seg_start = Num 8, seg_end = Some (Num 5), seg_text = js ''x''\<rparr> \<and>
   parseTranscriptFile (js ''[0:09] a'' @ [10] @ js ''[0:05] b'') =
     [\<lparr>seg_start = Num 9, seg_end = Some (Num 5), seg_text = js ''a''\<rparr>,
      \<lparr>seg_start = Num 5, seg_end = Some (Num 8), seg_text = js ''b''\<rparr>] \<and>
   \<not> segment_invariant \<lparr>seg_start = Num 9, seg_end = Some (Num 5), seg_text = js ''a''\<rparr>"
  by (simp add: parseTranscriptFile_def synthesize_def segment_invariant_def parser_defs)

end
